theory Spec2Isabelle
  imports Main "HOL-Library.Word"
begin

unbundle bit_operations_syntax

section \<open>ProcessTrace: a demand-paged process driven by a command trace\<close>

text \<open>
  A shallow embedding of \<^verbatim>\<open>ProcessTrace.cpp\<close>. The class drives an MMU
  (\<^verbatim>\<open>mem::MMU\<close>) and a \<^verbatim>\<open>PageFrameAllocator\<close> that are not part of the source
  file; both are modelled from the specification (sections 3, 4.1, 4.2 and 6) and every
  such definition says so. Everything else follows the C++ text function by function.
\<close>

subsection \<open>Machine types and the constants of the memory library\<close>

type_synonym Addr = "32 word"
type_synonym byte = "8 word"
type_synonym PageTableEntry = "32 word"

text \<open>
  Modelled from the spec: the constants of the \<^verbatim>\<open>mem\<close> namespace, whose header is
  missing. Section 6 fixes the entry layout (bit 0 present, bit 1 writable, the frame
  address above the page offset); the page size is the stride \<^verbatim>\<open>0x1000\<close> that
  \<^verbatim>\<open>CmdWritable\<close> itself uses, and a 32-bit address then splits 10/10/12.
\<close>

definition kPageSize :: Addr where "kPageSize = 0x1000"
definition kPageSizeBits :: nat where "kPageSizeBits = 12"
definition kPageTableSizeBits :: nat where "kPageTableSizeBits = 10"
definition kPageTableIndexMask :: Addr where "kPageTableIndexMask = 0x3FF"
definition kPageNumberMask :: Addr where "kPageNumberMask = 0xFFFFF000"
definition kPTE_PresentMask :: PageTableEntry where "kPTE_PresentMask = 1"
definition kPTE_WritableMask :: PageTableEntry where "kPTE_WritableMask = 2"

text \<open>\<^verbatim>\<open>sizeof (PageTableEntry)\<close>\<close>
definition sizeof_PTE :: Addr where "sizeof_PTE = 4"

subsection \<open>The addressing context (PMCB)\<close>

datatype op_state = NONE | READ_OP | WRITE_OP

text \<open>
  Modelled from the spec: section 3, AddressingContext. The fields are the ones
  \<^verbatim>\<open>ProcessTrace.cpp\<close> reads and writes.
\<close>

record PMCB =
  vm_enable :: bool
  page_table_base :: Addr
  operation_state :: op_state
  next_vaddress :: Addr

text \<open>\<^verbatim>\<open>mem::PMCB(vm_enable, page_table_base)\<close>: a context with no pending operation.\<close>
definition mk_PMCB :: "bool \<Rightarrow> Addr \<Rightarrow> PMCB" where
  "mk_PMCB vm base =
     \<lparr>vm_enable = vm, page_table_base = base, operation_state = NONE, next_vaddress = 0\<rparr>"

text \<open>
  Modelled from the spec: the member \<^verbatim>\<open>pmem_pmcb\<close> is declared in the missing header and
  never assigned in the source; it is the physical-mode context (paging disabled).
\<close>
definition pmem_pmcb :: PMCB where
  "pmem_pmcb = mk_PMCB False 0"

subsection \<open>Faults, fatal ends, output\<close>

text \<open>The two exceptions the MMU raises and the command handlers catch.\<close>
datatype fault = PageFaultException | WritePermissionFaultException

text \<open>
  Every way the program stops instead of returning to the command loop:
  \<^verbatim>\<open>exit(2)\<close>, and the exceptions nothing catches (\<^verbatim>\<open>std::out_of_range\<close> of
  \<^verbatim>\<open>at\<close>, \<^verbatim>\<open>std::bad_alloc\<close> thrown by \<^verbatim>\<open>AllocateAndMapPage\<close>, an MMU fault raised
  inside a handler), and the allocator running out of frames.
\<close>
datatype fatal =
    Exit2_OpenFailed
  | Exit2_InvalidCommand nat string
  | Uncaught_out_of_range
  | Uncaught_bad_alloc Addr
  | Uncaught_fault fault
  | AllocatorExhausted

text \<open>What is written to \<^verbatim>\<open>cout\<close>, one constructor per output statement of the source.\<close>
datatype event =
    EchoLine nat int string
  | CompareError Addr "32 word" "32 word"
  | ExceptionReport string nat Addr
  | QuotaExceeded "32 word"
  | DumpAddr Addr
  | DumpNewline
  | DumpByte byte

text \<open>
  One request served by the MMU: the addressing mode it was served in, its kind, the
  address and byte count the caller passed, the bytes of the caller's buffer (those
  handed in by a write, those returned by a read), and how it ended.
\<close>
datatype access = Access bool op_state Addr nat "byte list" "fault option"

subsection \<open>The state: MMU, allocator, output and the ProcessTrace object\<close>

record state =
  phys :: "Addr \<Rightarrow> byte"            \<comment> \<open>MMU: physical memory\<close>
  mmu_pmcb :: PMCB                   \<comment> \<open>MMU: the active context\<close>
  accesses :: "access list"          \<comment> \<open>MMU: the requests served so far\<close>
  free_frames :: "Addr list"         \<comment> \<open>PageFrameAllocator: frames not yet handed out\<close>
  out :: "event list"                \<comment> \<open>\<^verbatim>\<open>cout\<close>\<close>
  trace :: "string list"             \<comment> \<open>the lines of the trace file not yet read\<close>
  line_number :: nat
  id_number :: int
  allocated_pages :: "32 word"
  QUOTA :: "32 word"
  vmem_pmcb :: PMCB

subsection \<open>The MMU\<close>

text \<open>A page-table entry is four bytes of physical memory, least significant first.\<close>

definition get32 :: "(Addr \<Rightarrow> byte) \<Rightarrow> Addr \<Rightarrow> 32 word" where
  "get32 m a =
     ucast (m a) OR push_bit 8 (ucast (m (a + 1))) OR
     push_bit 16 (ucast (m (a + 2))) OR push_bit 24 (ucast (m (a + 3)))"

definition bytes_of32 :: "32 word \<Rightarrow> byte list" where
  "bytes_of32 v = [ucast v, ucast (drop_bit 8 v), ucast (drop_bit 16 v), ucast (drop_bit 24 v)]"

definition word_of_bytes :: "byte list \<Rightarrow> 32 word" where
  "word_of_bytes bs = foldr (\<lambda>b w. ucast b OR push_bit 8 w) bs 0"

text \<open>
  Modelled from the spec: the page-table walk of section 4.2. The first-level entry is
  at \<open>root + L1_index * 4\<close>, the second-level entry in the frame the first names; a
  write to a present page whose writable bit is clear is a permission fault.
\<close>

definition translate :: "(Addr \<Rightarrow> byte) \<Rightarrow> Addr \<Rightarrow> bool \<Rightarrow> Addr \<Rightarrow> fault + Addr" where
  "translate m root wr vaddr =
     (let l1 = get32 m (root + sizeof_PTE * drop_bit (kPageSizeBits + kPageTableSizeBits) vaddr) in
      if l1 AND kPTE_PresentMask = 0 then Inl PageFaultException
      else
        let l2 = get32 m ((l1 AND kPageNumberMask) +
                          sizeof_PTE * (drop_bit kPageSizeBits vaddr AND kPageTableIndexMask)) in
        if l2 AND kPTE_PresentMask = 0 then Inl PageFaultException
        else if wr \<and> l2 AND kPTE_WritableMask = 0 then Inl WritePermissionFaultException
        else Inr ((l2 AND kPageNumberMask) + (vaddr AND NOT kPageNumberMask)))"

text \<open>
  Modelled from the spec: \<open>ReadBytes\<close> in virtual mode. Bytes are translated one by one;
  the result is the bytes read, the address one past the last byte processed, and the
  fault that stopped the read, if any.
\<close>

fun read_virtual :: "(Addr \<Rightarrow> byte) \<Rightarrow> Addr \<Rightarrow> Addr \<Rightarrow> nat \<Rightarrow> byte list \<times> Addr \<times> fault option" where
  "read_virtual m root a 0 = ([], a, None)"
| "read_virtual m root a (Suc n) =
     (case translate m root False a of
        Inl f \<Rightarrow> ([], a, Some f)
      | Inr pa \<Rightarrow> (case read_virtual m root (a + 1) n of (bs, a', r) \<Rightarrow> (m pa # bs, a', r)))"

text \<open>Modelled from the spec: \<open>WriteBytes\<close> in virtual mode, symmetric.\<close>

fun write_virtual :: "(Addr \<Rightarrow> byte) \<Rightarrow> Addr \<Rightarrow> Addr \<Rightarrow> byte list \<Rightarrow> (Addr \<Rightarrow> byte) \<times> Addr \<times> fault option" where
  "write_virtual m root a [] = (m, a, None)"
| "write_virtual m root a (b # bs) =
     (case translate m root True a of
        Inl f \<Rightarrow> (m, a, Some f)
      | Inr pa \<Rightarrow> write_virtual (m(pa := b)) root (a + 1) bs)"

text \<open>Modelled from the spec: physical-mode accesses bypass the page table.\<close>

fun read_physical :: "(Addr \<Rightarrow> byte) \<Rightarrow> Addr \<Rightarrow> nat \<Rightarrow> byte list" where
  "read_physical m a 0 = []"
| "read_physical m a (Suc n) = m a # read_physical m (a + 1) n"

fun write_physical :: "(Addr \<Rightarrow> byte) \<Rightarrow> Addr \<Rightarrow> byte list \<Rightarrow> (Addr \<Rightarrow> byte)" where
  "write_physical m a [] = m"
| "write_physical m a (b # bs) = write_physical (m(a := b)) (a + 1) bs"

text \<open>
  Modelled from the spec: the progress marker. A request in virtual mode leaves in the
  active context the address one past the last byte processed and, when it faulted, the
  kind of the interrupted operation; a request that completes leaves no pending
  operation. A request starts afresh whatever the context held.
\<close>

definition mark :: "PMCB \<Rightarrow> op_state \<Rightarrow> Addr \<Rightarrow> fault option \<Rightarrow> PMCB" where
  "mark p k a r =
     p\<lparr>operation_state := (case r of None \<Rightarrow> NONE | Some f \<Rightarrow> k), next_vaddress := a\<rparr>"

text \<open>\<^verbatim>\<open>memory.get_bytes(dest, vaddr, count)\<close>\<close>
definition get_bytes :: "state \<Rightarrow> Addr \<Rightarrow> nat \<Rightarrow> state \<times> byte list \<times> fault option" where
  "get_bytes s vaddr count =
     (if vm_enable (mmu_pmcb s) then
        (case read_virtual (phys s) (page_table_base (mmu_pmcb s)) vaddr count of
           (bs, a', r) \<Rightarrow>
             (s\<lparr>mmu_pmcb := mark (mmu_pmcb s) READ_OP a' r,
                accesses := accesses s @ [Access True READ_OP vaddr count bs r]\<rparr>, bs, r))
      else
        (s\<lparr>accesses := accesses s @
             [Access False READ_OP vaddr count (read_physical (phys s) vaddr count) None]\<rparr>,
         read_physical (phys s) vaddr count, None))"

text \<open>\<^verbatim>\<open>memory.put_bytes(vaddr, count, src)\<close>; \<open>count\<close> is the length of the list.\<close>
definition put_bytes :: "state \<Rightarrow> Addr \<Rightarrow> byte list \<Rightarrow> state \<times> fault option" where
  "put_bytes s vaddr src =
     (if vm_enable (mmu_pmcb s) then
        (case write_virtual (phys s) (page_table_base (mmu_pmcb s)) vaddr src of
           (m', a', r) \<Rightarrow>
             (s\<lparr>phys := m', mmu_pmcb := mark (mmu_pmcb s) WRITE_OP a' r,
                accesses := accesses s @ [Access True WRITE_OP vaddr (length src) src r]\<rparr>, r))
      else
        (s\<lparr>phys := write_physical (phys s) vaddr src,
           accesses := accesses s @ [Access False WRITE_OP vaddr (length src) src None]\<rparr>, None))"

text \<open>\<^verbatim>\<open>memory.get_byte(dest, vaddr)\<close> and \<^verbatim>\<open>memory.put_byte(vaddr, src)\<close>, the
  one-byte requests.\<close>
definition get_byte :: "state \<Rightarrow> Addr \<Rightarrow> state \<times> (fault + byte)" where
  "get_byte s vaddr =
     (case get_bytes s vaddr 1 of
        (s', bs, Some f) \<Rightarrow> (s', Inl f)
      | (s', bs, None) \<Rightarrow> (s', Inr (hd bs)))"

definition put_byte :: "state \<Rightarrow> Addr \<Rightarrow> byte \<Rightarrow> state \<times> fault option" where
  "put_byte s vaddr b = put_bytes s vaddr [b]"

text \<open>\<^verbatim>\<open>memory.set_PMCB(p)\<close> activates a context; \<^verbatim>\<open>memory.get_PMCB(vmem_pmcb)\<close> copies
  the active one into the member.\<close>
definition set_PMCB :: "state \<Rightarrow> PMCB \<Rightarrow> state" where
  "set_PMCB s p = s\<lparr>mmu_pmcb := p\<rparr>"

definition get_PMCB_vmem :: "state \<Rightarrow> state" where
  "get_PMCB_vmem s = s\<lparr>vmem_pmcb := mmu_pmcb s\<rparr>"

subsection \<open>The page-frame allocator\<close>

text \<open>
  Modelled from the spec: section 4.1. \<^verbatim>\<open>allocator.Allocate(1, allocated)\<close> followed by
  \<^verbatim>\<open>allocated[0]\<close> hands out the next frame never returned before; with no frame
  left the process cannot go on.
\<close>
definition Allocate1 :: "state \<Rightarrow> fatal + (state \<times> Addr)" where
  "Allocate1 s =
     (case free_frames s of
        [] \<Rightarrow> Inl AllocatorExhausted
      | f # fs \<Rightarrow> Inr (s\<lparr>free_frames := fs\<rparr>, f))"

subsection \<open>Page-table entries as the source reads and writes them\<close>

text \<open>
  \<^verbatim>\<open>memory.get_bytes(reinterpret_cast<uint8_t*>(&entry), addr, sizeof(PageTableEntry))\<close>
  and the matching \<^verbatim>\<open>put_bytes\<close>. Neither \<^verbatim>\<open>AllocateAndMapPage\<close> nor
  \<^verbatim>\<open>SetWritableStatus\<close> has a handler, so a fault raised here is never caught.
\<close>

definition read_PTE :: "state \<Rightarrow> Addr \<Rightarrow> fatal + (state \<times> PageTableEntry)" where
  "read_PTE s a =
     (case get_bytes s a 4 of
        (s', bs, Some f) \<Rightarrow> Inl (Uncaught_fault f)
      | (s', bs, None) \<Rightarrow> Inr (s', word_of_bytes bs))"

definition write_PTE :: "state \<Rightarrow> Addr \<Rightarrow> PageTableEntry \<Rightarrow> fatal + state" where
  "write_PTE s a v =
     (case put_bytes s a (bytes_of32 v) of
        (s', Some f) \<Rightarrow> Inl (Uncaught_fault f)
      | (s', None) \<Rightarrow> Inr s')"

subsection \<open>AllocateAndMapPage (lines 383-424)\<close>

text \<open>Lines 390-401: fetch the first-level entry and, if it is absent, install a fresh
  second-level table. Returns the entry in force afterwards.\<close>

definition ensure_L1 :: "state \<Rightarrow> Addr \<Rightarrow> fatal + (state \<times> PageTableEntry)" where
  "ensure_L1 s l1_entry_addr =
     (case read_PTE s l1_entry_addr of
        Inl e \<Rightarrow> Inl e
      | Inr (s1, l1_entry) \<Rightarrow>
          if l1_entry AND kPTE_PresentMask = 0 then
            (case Allocate1 s1 of
               Inl e \<Rightarrow> Inl e
             | Inr (s2, frame) \<Rightarrow>
                 (let l1_new = frame OR kPTE_PresentMask OR kPTE_WritableMask in
                  case write_PTE s2 l1_entry_addr l1_new of
                    Inl e \<Rightarrow> Inl e
                  | Inr s3 \<Rightarrow> Inr (s3, l1_new)))
          else Inr (s1, l1_entry))"

definition AllocateAndMapPage :: "state \<Rightarrow> Addr \<Rightarrow> fatal + state" where
  "AllocateAndMapPage s vaddr =
     (let pt_base = page_table_base (vmem_pmcb s);
          pt_l1_offset = drop_bit (kPageSizeBits + kPageTableSizeBits) vaddr;
          l1_entry_addr = pt_base + sizeof_PTE * pt_l1_offset
      in case ensure_L1 s l1_entry_addr of
           Inl e \<Rightarrow> Inl e
         | Inr (s1, l1_entry) \<Rightarrow>
             (let pt_l2_addr = l1_entry AND kPageNumberMask;
                  pt_l2_offset = drop_bit kPageSizeBits vaddr AND kPageTableIndexMask;
                  l2_entry_addr = pt_l2_addr + sizeof_PTE * pt_l2_offset
              in case read_PTE s1 l2_entry_addr of
                   Inl e \<Rightarrow> Inl e
                 | Inr (s2, l2_entry) \<Rightarrow>
                     if l2_entry AND kPTE_PresentMask \<noteq> 0 then Inl (Uncaught_bad_alloc vaddr)
                     else
                       (case Allocate1 s2 of
                          Inl e \<Rightarrow> Inl e
                        | Inr (s3, frame) \<Rightarrow>
                            write_PTE s3 l2_entry_addr
                              (frame OR kPTE_PresentMask OR kPTE_WritableMask))))"

subsection \<open>SetWritableStatus (lines 426-459)\<close>

definition SetWritableStatus :: "state \<Rightarrow> Addr \<Rightarrow> bool \<Rightarrow> fatal + state" where
  "SetWritableStatus s vaddr writable =
     (let pt_base = page_table_base (vmem_pmcb s);
          pt_l1_offset = drop_bit (kPageSizeBits + kPageTableSizeBits) vaddr;
          l1_entry_addr = pt_base + sizeof_PTE * pt_l1_offset
      in case read_PTE s l1_entry_addr of
           Inl e \<Rightarrow> Inl e
         | Inr (s1, l1_entry) \<Rightarrow>
             if l1_entry AND kPTE_PresentMask = 0 then Inr s1
             else
               (let pt_l2_addr = l1_entry AND kPageNumberMask;
                    pt_l2_offset = drop_bit kPageSizeBits vaddr AND kPageTableIndexMask;
                    l2_entry_addr = pt_l2_addr + sizeof_PTE * pt_l2_offset
                in case read_PTE s1 l2_entry_addr of
                     Inl e \<Rightarrow> Inl e
                   | Inr (s2, l2_entry) \<Rightarrow>
                       if l2_entry AND kPTE_PresentMask = 0 then Inr s2
                       else
                         write_PTE s2 l2_entry_addr
                           ((l2_entry AND NOT kPTE_WritableMask) OR
                            (if writable then kPTE_WritableMask else 0))))"

subsection \<open>PrintAndClearException (lines 370-381)\<close>

definition PrintAndClearException :: "state \<Rightarrow> string \<Rightarrow> state" where
  "PrintAndClearException s type =
     (let s1 = get_PMCB_vmem s;
          s2 = s1\<lparr>out := out s1 @
                 [ExceptionReport type (line_number s1) (next_vaddress (vmem_pmcb s1))]\<rparr>;
          s3 = s2\<lparr>vmem_pmcb := (vmem_pmcb s2)\<lparr>operation_state := NONE\<rparr>\<rparr>
      in set_PMCB s3 (vmem_pmcb s3))"

subsection \<open>CmdQuota (lines 141-145)\<close>

definition CmdQuota :: "state \<Rightarrow> 32 word list \<Rightarrow> fatal + state" where
  "CmdQuota s cmdArgs =
     (case cmdArgs of
        [] \<Rightarrow> Inl Uncaught_out_of_range
      | q # _ \<Rightarrow> Inr (s\<lparr>QUOTA := q\<rparr>))"

subsection \<open>CmdCompare (lines 147-168)\<close>

text \<open>The comparison loop of lines 157-164: \<open>buffer[i - 1]\<close> against \<open>cmdArgs.at(i)\<close>,
  the byte widened to 32 bits as the C++ comparison does.\<close>

fun compare_loop :: "Addr \<Rightarrow> byte list \<Rightarrow> 32 word list \<Rightarrow> event list" where
  "compare_loop addr (b # buffer) (e # expected) =
     (if ucast b \<noteq> e then [CompareError addr e (ucast b)] else []) @
     compare_loop (addr + 1) buffer expected"
| "compare_loop addr _ _ = []"

definition CmdCompare :: "state \<Rightarrow> 32 word list \<Rightarrow> fatal + state" where
  "CmdCompare s cmdArgs =
     (case cmdArgs of
        [] \<Rightarrow> Inl Uncaught_out_of_range
      | addr # expected \<Rightarrow>
          (case get_bytes s addr (length expected) of
             (s1, buffer, None) \<Rightarrow> Inr (s1\<lparr>out := out s1 @ compare_loop addr buffer expected\<rparr>)
           | (s1, buffer, Some PageFaultException) \<Rightarrow>
               Inr (PrintAndClearException s1 ''PageFaultException'')
           | (s1, buffer, Some WritePermissionFaultException) \<Rightarrow>
               Inl (Uncaught_fault WritePermissionFaultException)))"

subsection \<open>The retry loops of CmdPut, CmdCopy and CmdFill\<close>

text \<open>How one pass through the body of a retry loop ends: the loop goes round again,
  the loop is left (\<open>complete = true\<close> or \<open>filled = true\<close>), or the handler executes
  \<^verbatim>\<open>return false\<close>.\<close>
datatype pass = Again | Leave | ReturnFalse

text \<open>The handler of \<^verbatim>\<open>PageFaultException\<close>, the same text in the three commands (lines
  192-202, 247-258, 294-305), with the final test of the loop body folded in:
  \<open>start\<close> is the address the handler subtracts and \<open>wanted\<close> the length it compares with.
  Returns the byte count it computed as well.\<close>

definition on_page_fault :: "state \<Rightarrow> Addr \<Rightarrow> nat \<Rightarrow> fatal + (state \<times> Addr \<times> pass)" where
  "on_page_fault s start wanted =
     (let s1 = get_PMCB_vmem s;
          bytes_written = next_vaddress (vmem_pmcb s1) - start
      in if unat bytes_written \<noteq> wanted then
           if allocated_pages s1 = QUOTA s1 then Inr (s1, bytes_written, ReturnFalse)
           else
             (case AllocateAndMapPage (set_PMCB s1 pmem_pmcb)
                     (next_vaddress (vmem_pmcb s1) AND kPageNumberMask) of
                Inl e \<Rightarrow> Inl e
              | Inr s2 \<Rightarrow>
                  Inr (s2\<lparr>allocated_pages := allocated_pages s2 + 1\<rparr>, bytes_written, Again))
         else Inr (s1, bytes_written, Leave))"

text \<open>Lines 186-187, 241-242, 284-285: clear the pending operation and activate the
  virtual context.\<close>
definition clear_and_activate :: "state \<Rightarrow> state" where
  "clear_and_activate s =
     (let s1 = s\<lparr>vmem_pmcb := (vmem_pmcb s)\<lparr>operation_state := NONE\<rparr>\<rparr>
      in set_PMCB s1 (vmem_pmcb s1))"

text \<open>One pass through the \<^verbatim>\<open>while\<close> loop of \<^verbatim>\<open>CmdPut\<close> (lines 184-210) and of
  \<^verbatim>\<open>CmdCopy\<close> (lines 239-266), which are the same text: \<open>addr\<close> is \<open>addr\<close> or \<open>dst\<close>,
  \<open>count\<close> is \<open>num_bytes\<close> or \<open>bytes_read\<close>.\<close>

definition write_pass :: "state \<Rightarrow> Addr \<Rightarrow> nat \<Rightarrow> byte list \<Rightarrow> fatal + (state \<times> pass)" where
  "write_pass s addr count buffer =
     (case put_bytes (clear_and_activate s) addr (take count buffer) of
        (s1, None) \<Rightarrow> Inr (s1, Leave)
      | (s1, Some PageFaultException) \<Rightarrow>
          (case on_page_fault s1 addr count of
             Inl e \<Rightarrow> Inl e
           | Inr (s2, bytes_written, p) \<Rightarrow> Inr (s2, p))
      | (s1, Some WritePermissionFaultException) \<Rightarrow>
          Inr (PrintAndClearException s1 ''WritePermissionFaultException'', Leave))"

subsection \<open>What each primitive leaves untouched\<close>

text \<open>The retry loops below end because every pass that goes round again has taken
  a frame from the allocator; the facts needed for that come first.\<close>

lemma get_bytes_frame:
  "get_bytes s a n = (s', bs, r) \<Longrightarrow>
     phys s' = phys s \<and> free_frames s' = free_frames s \<and> out s' = out s \<and>
     trace s' = trace s \<and> line_number s' = line_number s \<and> id_number s' = id_number s \<and>
     allocated_pages s' = allocated_pages s \<and> QUOTA s' = QUOTA s \<and>
     vmem_pmcb s' = vmem_pmcb s \<and>
     vm_enable (mmu_pmcb s') = vm_enable (mmu_pmcb s) \<and>
     page_table_base (mmu_pmcb s') = page_table_base (mmu_pmcb s)"
  by (auto simp: get_bytes_def mark_def split: prod.splits if_splits)

lemma put_bytes_frame:
  "put_bytes s a bs = (s', r) \<Longrightarrow>
     free_frames s' = free_frames s \<and> out s' = out s \<and>
     trace s' = trace s \<and> line_number s' = line_number s \<and> id_number s' = id_number s \<and>
     allocated_pages s' = allocated_pages s \<and> QUOTA s' = QUOTA s \<and>
     vmem_pmcb s' = vmem_pmcb s \<and>
     vm_enable (mmu_pmcb s') = vm_enable (mmu_pmcb s) \<and>
     page_table_base (mmu_pmcb s') = page_table_base (mmu_pmcb s)"
  by (auto simp: put_bytes_def mark_def split: prod.splits if_splits)

lemma read_PTE_frame:
  "read_PTE s a = Inr (s', v) \<Longrightarrow>
     phys s' = phys s \<and> free_frames s' = free_frames s \<and> out s' = out s \<and>
     trace s' = trace s \<and> line_number s' = line_number s \<and> id_number s' = id_number s \<and>
     allocated_pages s' = allocated_pages s \<and> QUOTA s' = QUOTA s \<and>
     vmem_pmcb s' = vmem_pmcb s \<and>
     vm_enable (mmu_pmcb s') = vm_enable (mmu_pmcb s) \<and>
     page_table_base (mmu_pmcb s') = page_table_base (mmu_pmcb s)"
  unfolding read_PTE_def
  by (cases "get_bytes s a 4") (auto split: option.splits dest!: get_bytes_frame)

lemma write_PTE_frame:
  "write_PTE s a v = Inr s' \<Longrightarrow>
     free_frames s' = free_frames s \<and> out s' = out s \<and>
     trace s' = trace s \<and> line_number s' = line_number s \<and> id_number s' = id_number s \<and>
     allocated_pages s' = allocated_pages s \<and> QUOTA s' = QUOTA s \<and>
     vmem_pmcb s' = vmem_pmcb s \<and>
     vm_enable (mmu_pmcb s') = vm_enable (mmu_pmcb s) \<and>
     page_table_base (mmu_pmcb s') = page_table_base (mmu_pmcb s)"
  unfolding write_PTE_def
  by (cases "put_bytes s a (bytes_of32 v)") (auto split: option.splits dest!: put_bytes_frame)

lemma Allocate1_frame:
  "Allocate1 s = Inr (s', f) \<Longrightarrow>
     free_frames s = f # free_frames s' \<and> phys s' = phys s \<and> out s' = out s \<and>
     trace s' = trace s \<and> line_number s' = line_number s \<and> id_number s' = id_number s \<and>
     allocated_pages s' = allocated_pages s \<and> QUOTA s' = QUOTA s \<and>
     vmem_pmcb s' = vmem_pmcb s \<and> mmu_pmcb s' = mmu_pmcb s \<and> accesses s' = accesses s"
  by (auto simp: Allocate1_def split: list.splits)

definition same_proc :: "state \<Rightarrow> state \<Rightarrow> bool" where
  "same_proc s s' \<longleftrightarrow>
     out s' = out s \<and> trace s' = trace s \<and> line_number s' = line_number s \<and>
     id_number s' = id_number s \<and> allocated_pages s' = allocated_pages s \<and>
     QUOTA s' = QUOTA s \<and> vmem_pmcb s' = vmem_pmcb s \<and>
     vm_enable (mmu_pmcb s') = vm_enable (mmu_pmcb s) \<and>
     page_table_base (mmu_pmcb s') = page_table_base (mmu_pmcb s)"

lemma same_proc_refl [simp]: "same_proc s s"
  by (simp add: same_proc_def)

lemma same_proc_trans: "same_proc s s1 \<Longrightarrow> same_proc s1 s2 \<Longrightarrow> same_proc s s2"
  by (simp add: same_proc_def)

lemma get_bytes_same: "get_bytes s a n = (s', bs, r) \<Longrightarrow> same_proc s s'"
  by (drule get_bytes_frame) (simp add: same_proc_def)

lemma put_bytes_same: "put_bytes s a bs = (s', r) \<Longrightarrow> same_proc s s'"
  by (drule put_bytes_frame) (simp add: same_proc_def)

lemma read_PTE_same: "read_PTE s a = Inr (s', v) \<Longrightarrow> same_proc s s'"
  by (drule read_PTE_frame) (simp add: same_proc_def)

lemma write_PTE_same: "write_PTE s a v = Inr s' \<Longrightarrow> same_proc s s'"
  by (drule write_PTE_frame) (simp add: same_proc_def)

lemma Allocate1_same: "Allocate1 s = Inr (s', f) \<Longrightarrow> same_proc s s'"
  by (drule Allocate1_frame) (simp add: same_proc_def)

text \<open>taken k s s': exactly k frames were taken off the free list\<close>
definition taken :: "nat \<Rightarrow> state \<Rightarrow> state \<Rightarrow> bool" where
  "taken k s s' \<longleftrightarrow> k \<le> length (free_frames s) \<and> free_frames s' = drop k (free_frames s)"

lemma taken_0 [simp]: "taken 0 s s' \<longleftrightarrow> free_frames s' = free_frames s"
  by (simp add: taken_def)

lemma taken_trans: "taken j s s1 \<Longrightarrow> taken k s1 s2 \<Longrightarrow> taken (j + k) s s2"
  by (auto simp: taken_def add.commute)

lemma Allocate1_taken: "Allocate1 s = Inr (s', f) \<Longrightarrow> taken 1 s s'"
  by (drule Allocate1_frame) (auto simp: taken_def)

lemma read_PTE_taken: "read_PTE s a = Inr (s', v) \<Longrightarrow> taken 0 s s'"
  by (drule read_PTE_frame) simp

lemma write_PTE_taken: "write_PTE s a v = Inr s' \<Longrightarrow> taken 0 s s'"
  by (drule write_PTE_frame) simp

lemma ensure_L1_cases:
  assumes "ensure_L1 s a = Inr (s', v)"
  shows "same_proc s s' \<and> (taken 0 s s' \<or> taken 1 s s')"
proof -
  from assms obtain s1 l1 where r: "read_PTE s a = Inr (s1, l1)"
    by (auto simp: ensure_L1_def split: sum.splits)
  note r1 = read_PTE_same [OF r] read_PTE_taken [OF r]
  show ?thesis
  proof (cases "l1 AND kPTE_PresentMask = 0")
    case False
    with assms r have "s' = s1" by (simp add: ensure_L1_def)
    with r1 show ?thesis by simp
  next
    case True
    with assms r obtain s2 f where al: "Allocate1 s1 = Inr (s2, f)"
      by (auto simp: ensure_L1_def split: sum.splits)
    with assms r True have w: "write_PTE s2 a (f OR kPTE_PresentMask OR kPTE_WritableMask) = Inr s'"
      by (auto simp: ensure_L1_def Let_def split: sum.splits)
    have "same_proc s s'"
      using r1(1) Allocate1_same [OF al] write_PTE_same [OF w] by (blast intro: same_proc_trans)
    moreover have "taken 1 s s'"
      using taken_trans [OF taken_trans [OF r1(2) Allocate1_taken [OF al]] write_PTE_taken [OF w]]
      by simp
    ultimately show ?thesis by simp
  qed
qed

lemma AllocateAndMapPage_cases:
  assumes "AllocateAndMapPage s vaddr = Inr s'"
  shows "same_proc s s' \<and> (taken 1 s s' \<or> taken 2 s s')"
proof -
  let ?a1 = "page_table_base (vmem_pmcb s) +
             sizeof_PTE * drop_bit (kPageSizeBits + kPageTableSizeBits) vaddr"
  from assms obtain s1 l1 where e: "ensure_L1 s ?a1 = Inr (s1, l1)"
    by (auto simp: AllocateAndMapPage_def Let_def split: sum.splits)
  let ?a2 = "(l1 AND kPageNumberMask) +
             sizeof_PTE * (drop_bit kPageSizeBits vaddr AND kPageTableIndexMask)"
  from assms e obtain s2 l2 where r: "read_PTE s1 ?a2 = Inr (s2, l2)"
    by (auto simp: AllocateAndMapPage_def Let_def split: sum.splits)
  from assms e r obtain s3 f where al: "Allocate1 s2 = Inr (s3, f)"
    by (auto simp: AllocateAndMapPage_def Let_def split: sum.splits if_splits)
  from assms e r al have w: "write_PTE s3 ?a2 (f OR kPTE_PresentMask OR kPTE_WritableMask) = Inr s'"
    by (auto simp: AllocateAndMapPage_def Let_def split: sum.splits if_splits)
  have "same_proc s s'"
    using ensure_L1_cases [OF e] read_PTE_same [OF r] Allocate1_same [OF al] write_PTE_same [OF w]
    by (blast intro: same_proc_trans)
  moreover have "taken 1 s1 s'"
    using taken_trans [OF taken_trans [OF read_PTE_taken [OF r] Allocate1_taken [OF al]]
                          write_PTE_taken [OF w]] by simp
  then have "taken 1 s s' \<or> taken 2 s s'"
    using ensure_L1_cases [OF e] taken_trans [of 0 s s1 1 s'] taken_trans [of 1 s s1 1 s']
    by (auto simp: numeral_2_eq_2)
  ultimately show ?thesis by simp
qed

lemma on_page_fault_Again:
  assumes "on_page_fault s start wanted = Inr (s', bw, Again)"
  shows "length (free_frames s') < length (free_frames s)"
proof -
  let ?s1 = "get_PMCB_vmem s"
  from assms obtain s2 where
    a: "AllocateAndMapPage (set_PMCB ?s1 pmem_pmcb)
          (next_vaddress (vmem_pmcb ?s1) AND kPageNumberMask) = Inr s2"
    and s': "s' = s2\<lparr>allocated_pages := allocated_pages s2 + 1\<rparr>"
    by (auto simp: on_page_fault_def Let_def split: if_splits sum.splits)
  from AllocateAndMapPage_cases [OF a] s' show ?thesis
    by (auto simp: taken_def get_PMCB_vmem_def set_PMCB_def)
qed

lemma write_pass_Again:
  assumes a: "write_pass s addr count buffer = Inr (s', Again)"
  shows "length (free_frames s') < length (free_frames s)"
proof -
  obtain s1 r where p: "put_bytes (clear_and_activate s) addr (take count buffer) = (s1, r)"
    by (cases "put_bytes (clear_and_activate s) addr (take count buffer)")
  have f: "free_frames s1 = free_frames s"
    using put_bytes_frame [OF p] by (simp add: clear_and_activate_def Let_def set_PMCB_def)
  from a p obtain bw where "on_page_fault s1 addr count = Inr (s', bw, Again)"
    by (auto simp: write_pass_def split: option.splits fault.splits sum.splits)
  from on_page_fault_Again [OF this] f show ?thesis by simp
qed

text \<open>The \<^verbatim>\<open>while\<close> loop itself and what follows it (lines 211-213, 267-269). Every
  pass that goes round again has taken a frame from the allocator, so the loop ends.\<close>

function write_loop :: "state \<Rightarrow> Addr \<Rightarrow> nat \<Rightarrow> byte list \<Rightarrow> fatal + (state \<times> bool)" where
  "write_loop s addr count buffer =
     (case write_pass s addr count buffer of
        Inl e \<Rightarrow> Inl e
      | Inr (s1, Again) \<Rightarrow> write_loop s1 addr count buffer
      | Inr (s1, Leave) \<Rightarrow> Inr (set_PMCB s1 (vmem_pmcb s1), True)
      | Inr (s1, ReturnFalse) \<Rightarrow> Inr (s1, False))"
  by pat_completeness auto
termination
  by (relation "measure (\<lambda>(s, addr, count, buffer). length (free_frames s))")
     (auto dest: write_pass_Again)

declare write_loop.simps [simp del]

subsection \<open>CmdFill (lines 272-317)\<close>

lemma unat_inc: "(b :: 'a::len word) < n \<Longrightarrow> unat (b + 1) = Suc (unat b)"
  by unat_arith

text \<open>The \<^verbatim>\<open>for\<close> loop of lines 287-292. \<open>i\<close> starts as \<open>bytes_written\<close> and both are
  incremented together, and \<open>i < num_bytes\<close> is an unsigned comparison, so the loop runs
  while \<open>bytes_written < num_bytes\<close>.\<close>

function fill_for :: "state \<Rightarrow> Addr \<Rightarrow> Addr \<Rightarrow> Addr \<Rightarrow> byte \<Rightarrow> state \<times> Addr \<times> Addr \<times> fault option" where
  "fill_for s addr bytes_written num_bytes val =
     (if bytes_written < num_bytes then
        (case put_byte s addr val of
           (s1, Some f) \<Rightarrow> (s1, addr, bytes_written, Some f)
         | (s1, None) \<Rightarrow> fill_for s1 (addr + 1) (bytes_written + 1) num_bytes val)
      else (s, addr, bytes_written, None))"
  by pat_completeness auto
termination
  by (relation "measure (\<lambda>(s, addr, bw, n, val). unat n - unat bw)")
     (auto simp: word_less_nat_alt unat_inc)

declare fill_for.simps [simp del]

subsection \<open>CmdPut (lines 170-214)\<close>

definition CmdPut :: "state \<Rightarrow> 32 word list \<Rightarrow> fatal + (state \<times> bool)" where
  "CmdPut s cmdArgs =
     (case cmdArgs of
        [] \<Rightarrow> Inl Uncaught_out_of_range
      | addr # bytes \<Rightarrow>
          (let buffer = map ucast bytes :: byte list
           in write_loop s addr (length buffer) buffer))"

subsection \<open>CmdCopy (lines 216-270)\<close>

text \<open>The bytes of \<open>buffer\<close> that \<^verbatim>\<open>get_bytes\<close> did not store are indeterminate in C++ and
  absent here; \<open>bytes_read\<close> counts exactly the stored ones whenever the read was served
  in virtual mode.\<close>

definition CmdCopy :: "state \<Rightarrow> 32 word list \<Rightarrow> fatal + (state \<times> bool)" where
  "CmdCopy s cmdArgs =
     (case cmdArgs of
        dst # src # num_bytes # _ \<Rightarrow>
          (case get_bytes s src (unat num_bytes) of
             (s1, buffer, Some WritePermissionFaultException) \<Rightarrow>
               Inl (Uncaught_fault WritePermissionFaultException)
           | (s1, buffer, r) \<Rightarrow>
               (let s2 = (case r of
                            None \<Rightarrow> s1
                          | Some _ \<Rightarrow> PrintAndClearException s1 ''PageFaultException on read'');
                    s3 = get_PMCB_vmem s2;
                    bytes_read = next_vaddress (vmem_pmcb s3) - src
                in write_loop s3 dst (unat bytes_read) buffer))
      | _ \<Rightarrow> Inl Uncaught_out_of_range)"

subsection \<open>CmdFill, continued\<close>

definition fill_pass ::
  "state \<Rightarrow> Addr \<Rightarrow> Addr \<Rightarrow> Addr \<Rightarrow> Addr \<Rightarrow> byte \<Rightarrow> fatal + (state \<times> Addr \<times> Addr \<times> pass)" where
  "fill_pass s addr bytes_written starting_addr num_bytes val =
     (case fill_for (clear_and_activate s) addr bytes_written num_bytes val of
        (s1, addr1, bw1, None) \<Rightarrow>
          Inr (s1, addr1, bw1, if bw1 = num_bytes then Leave else Again)
      | (s1, addr1, bw1, Some PageFaultException) \<Rightarrow>
          (case on_page_fault s1 starting_addr (unat num_bytes) of
             Inl e \<Rightarrow> Inl e
           | Inr (s2, bw2, p) \<Rightarrow> Inr (s2, addr1, bw2, p))
      | (s1, addr1, bw1, Some WritePermissionFaultException) \<Rightarrow>
          Inr (PrintAndClearException s1 ''WritePermissionFaultException'', addr1, bw1,
               Leave))"

text \<open>The \<^verbatim>\<open>while\<close> loop of lines 282-313. Started with \<open>bytes_written\<close> above
  \<open>num_bytes\<close> it would go round for ever without touching anything, so as a function
  of its variables it is partial: \<open>None\<close> stands for not returning.\<close>

partial_function (option) fill_loop ::
  "state \<Rightarrow> Addr \<Rightarrow> Addr \<Rightarrow> Addr \<Rightarrow> Addr \<Rightarrow> byte \<Rightarrow> (fatal + (state \<times> bool)) option" where
  "fill_loop s addr bytes_written starting_addr num_bytes val =
     (case fill_pass s addr bytes_written starting_addr num_bytes val of
        Inl e \<Rightarrow> Some (Inl e)
      | Inr (s1, addr1, bw1, p) \<Rightarrow>
          (case p of
             Again \<Rightarrow> fill_loop s1 addr1 bw1 starting_addr num_bytes val
           | Leave \<Rightarrow> Some (Inr (set_PMCB s1 (vmem_pmcb s1), True))
           | ReturnFalse \<Rightarrow> Some (Inr (s1, False))))"

declare fill_loop.simps [code]

definition CmdFill :: "state \<Rightarrow> 32 word list \<Rightarrow> (fatal + (state \<times> bool)) option" where
  "CmdFill s cmdArgs =
     (case cmdArgs of
        addr # num_bytes # val # _ \<Rightarrow> fill_loop s addr 0 addr num_bytes (ucast val)
      | _ \<Rightarrow> Some (Inl Uncaught_out_of_range))"

subsection \<open>CmdDump (lines 319-344)\<close>

text \<open>The \<^verbatim>\<open>for\<close> loop of lines 330-338; \<open>i < count\<close> is an unsigned comparison.\<close>

function dump_for :: "state \<Rightarrow> Addr \<Rightarrow> 32 word \<Rightarrow> 32 word \<Rightarrow> state \<times> fault option" where
  "dump_for s addr i count =
     (if i < count then
        (let s1 = (if unat i mod 16 = 0 then s\<lparr>out := out s @ [DumpNewline]\<rparr> else s)
         in case get_byte s1 addr of
              (s2, Inl f) \<Rightarrow> (s2, Some f)
            | (s2, Inr byte_val) \<Rightarrow>
                dump_for (s2\<lparr>out := out s2 @ [DumpByte byte_val]\<rparr>) (addr + 1) (i + 1) count)
      else (s, None))"
  by pat_completeness auto
termination
  by (relation "measure (\<lambda>(s, addr, i, count). unat count - unat i)")
     (auto simp: word_less_nat_alt unat_inc)

declare dump_for.simps [simp del]

definition CmdDump :: "state \<Rightarrow> 32 word list \<Rightarrow> fatal + state" where
  "CmdDump s cmdArgs =
     (case cmdArgs of
        addr # count # _ \<Rightarrow>
          (case dump_for (s\<lparr>out := out s @ [DumpAddr addr]\<rparr>) addr 0 count of
             (s1, None) \<Rightarrow> Inr (s1\<lparr>out := out s1 @ [DumpNewline]\<rparr>)
           | (s1, Some PageFaultException) \<Rightarrow>
               Inr (PrintAndClearException (s1\<lparr>out := out s1 @ [DumpNewline]\<rparr>)
                      ''PageFaultException'')
           | (s1, Some WritePermissionFaultException) \<Rightarrow>
               Inl (Uncaught_fault WritePermissionFaultException))
      | _ \<Rightarrow> Inl Uncaught_out_of_range)"

subsection \<open>CmdWritable (lines 346-368)\<close>

text \<open>The loop \<^verbatim>\<open>while (count-- > 0)\<close> of lines 361-364.\<close>

fun writable_loop :: "state \<Rightarrow> Addr \<Rightarrow> nat \<Rightarrow> bool \<Rightarrow> fatal + state" where
  "writable_loop s vaddr 0 writable = Inr s"
| "writable_loop s vaddr (Suc count) writable =
     (case SetWritableStatus s vaddr writable of
        Inl e \<Rightarrow> Inl e
      | Inr s1 \<Rightarrow> writable_loop s1 (vaddr + 0x1000) count writable)"

definition CmdWritable :: "state \<Rightarrow> 32 word list \<Rightarrow> fatal + state" where
  "CmdWritable s cmdArgs =
     (case cmdArgs of
        vaddr # byte_count # flag # _ \<Rightarrow>
          (let count = unat (byte_count div kPageSize);
               writable = (flag \<noteq> 0);
               s1 = get_PMCB_vmem s;
               s2 = set_PMCB s1 pmem_pmcb
           in case writable_loop s2 vaddr count writable of
                Inl e \<Rightarrow> Inl e
              | Inr s3 \<Rightarrow> Inr (set_PMCB s3 (vmem_pmcb s3)))
      | _ \<Rightarrow> Inl Uncaught_out_of_range)"

subsection \<open>ParseCommand (lines 103-139)\<close>

text \<open>
  The extractions of \<^verbatim>\<open>std::istringstream\<close> that \<^verbatim>\<open>ParseCommand\<close> uses, as far as the
  C++ library defines them for this use: \<^verbatim>\<open>lineStream >> cmd\<close> skips white space and
  takes the characters up to the next white space; \<^verbatim>\<open>lineStream >> std::hex >> arg\<close>
  skips white space, accepts a sign and a \<^verbatim>\<open>0x\<close> prefix, takes the hexadecimal digits
  that follow and fails when there is none or the value does not fit 32 bits. A failed
  extraction leaves the stream failed, so nothing is extracted after it.
\<close>

definition isspace :: "char \<Rightarrow> bool" where
  "isspace c \<longleftrightarrow> c \<in> {CHR 0x20, CHR 0x09, CHR 0x0A, CHR 0x0B, CHR 0x0C, CHR 0x0D}"

definition extract_word :: "string \<Rightarrow> string \<times> string" where
  "extract_word inp =
     (let r = dropWhile isspace inp
      in (takeWhile (\<lambda>c. \<not> isspace c) r, dropWhile (\<lambda>c. \<not> isspace c) r))"

definition hex_digit :: "char \<Rightarrow> int option" where
  "hex_digit c =
     (let n = of_char c :: int in
      if 48 \<le> n \<and> n \<le> 57 then Some (n - 48)
      else if 97 \<le> n \<and> n \<le> 102 then Some (n - 87)
      else if 65 \<le> n \<and> n \<le> 70 then Some (n - 55)
      else None)"

definition strip_sign :: "string \<Rightarrow> bool \<times> string" where
  "strip_sign r =
     (case r of
        c # cs \<Rightarrow> if c = CHR ''-'' then (True, cs) else if c = CHR ''+'' then (False, cs)
                  else (False, r)
      | [] \<Rightarrow> (False, r))"

definition strip_0x :: "string \<Rightarrow> string" where
  "strip_0x r =
     (case r of
        c # d # cs \<Rightarrow> if c = CHR ''0'' \<and> (d = CHR ''x'' \<or> d = CHR ''X'') then cs else r
      | _ \<Rightarrow> r)"

definition extract_hex :: "string \<Rightarrow> (32 word \<times> string) option" where
  "extract_hex inp =
     (let (negative, r1) = strip_sign (dropWhile isspace inp);
          r2 = strip_0x r1;
          digits = takeWhile (\<lambda>c. hex_digit c \<noteq> None) r2;
          rest = dropWhile (\<lambda>c. hex_digit c \<noteq> None) r2;
          v = foldl (\<lambda>acc c. 16 * acc + the (hex_digit c)) (0 :: int) digits
      in if digits = [] \<or> v > 0xFFFFFFFF then None
         else Some (if negative then - of_int v else of_int v, rest))"

lemma strip_sign_shorter: "strip_sign r = (neg, r1) \<Longrightarrow> length r1 \<le> length r"
  by (auto simp: strip_sign_def split: list.splits if_splits)

lemma extract_hex_shorter: "extract_hex inp = Some (v, rest) \<Longrightarrow> length rest < length inp"
proof -
  assume a: "extract_hex inp = Some (v, rest)"
  obtain neg r1 where s: "strip_sign (dropWhile isspace inp) = (neg, r1)"
    by (cases "strip_sign (dropWhile isspace inp)")
  let ?r2 = "strip_0x r1"
  let ?P = "\<lambda>c. hex_digit c \<noteq> None"
  from a s have d: "takeWhile ?P ?r2 \<noteq> []" and r: "rest = dropWhile ?P ?r2"
    by (auto simp: extract_hex_def Let_def split: if_splits)
  have "length (takeWhile ?P ?r2) + length (dropWhile ?P ?r2) = length ?r2"
    by (metis length_append takeWhile_dropWhile_id)
  with d r have 1: "length rest < length ?r2" by (cases "takeWhile ?P ?r2") auto
  have 2: "length ?r2 \<le> length r1"
    by (auto simp: strip_0x_def split: list.splits)
  have 3: "length r1 \<le> length (dropWhile isspace inp)"
    using s by (rule strip_sign_shorter)
  have 4: "length (dropWhile isspace inp) \<le> length inp"
    by (rule length_dropWhile_le)
  from 1 2 3 4 show ?thesis by linarith
qed

function extract_args :: "string \<Rightarrow> 32 word list" where
  "extract_args inp =
     (case extract_hex inp of
        None \<Rightarrow> []
      | Some (arg, rest) \<Rightarrow> arg # extract_args rest)"
  by pat_completeness auto
termination
  by (relation "measure length") (auto dest: extract_hex_shorter)

declare extract_args.simps [simp del]

text \<open>
  The trace file is the list of its lines; \<^verbatim>\<open>std::getline\<close> fails at the end of the
  list (end of file). \<^verbatim>\<open>line.at(0)\<close> throws on an empty line. The result is the
  triple \<open>(line, cmd, cmdArgs)\<close>, or nothing at end of file.
\<close>

definition ParseCommand :: "state \<Rightarrow> fatal + (state \<times> (string \<times> string \<times> 32 word list) option)" where
  "ParseCommand s =
     (case trace s of
        [] \<Rightarrow> Inr (s, None)
      | line # rest \<Rightarrow>
          (let s1 = s\<lparr>trace := rest, line_number := line_number s + 1,
                      out := out s @ [EchoLine (line_number s + 1) (id_number s) line]\<rparr>
           in case line of
                [] \<Rightarrow> Inl Uncaught_out_of_range
              | c # _ \<Rightarrow>
                  if c \<noteq> CHR ''#'' then
                    (let (cmd, lineStream) = extract_word line
                     in Inr (s1, Some (line, cmd,
                               if cmd = [] then [] else extract_args lineStream)))
                  else Inr (s1, Some (line, [], []))))"

subsection \<open>Execute (lines 53-101)\<close>

text \<open>The body of the \<^verbatim>\<open>for\<close> loop (lines 64-97). The flag returned says whether the loop
  goes on; when it is false \<^verbatim>\<open>Execute\<close> returns \<open>i\<close>.\<close>

definition Execute_body :: "state \<Rightarrow> (fatal + (state \<times> bool)) option" where
  "Execute_body s =
     (case ParseCommand s of
        Inl e \<Rightarrow> Some (Inl e)
      | Inr (s1, None) \<Rightarrow> Some (Inr (s1, False))
      | Inr (s1, Some (line, cmd, cmdArgs)) \<Rightarrow>
          (let quota_exceeded = (\<lambda>r. case r of
                   Inl e \<Rightarrow> Inl e
                 | Inr (s2, True) \<Rightarrow> Inr (s2, True)
                 | Inr (s2, False) \<Rightarrow>
                     Inr (s2\<lparr>out := out s2 @ [QuotaExceeded (QUOTA s2)]\<rparr>, False));
               go_on = (\<lambda>r. case r of Inl e \<Rightarrow> Inl e | Inr s2 \<Rightarrow> Inr (s2, True))
           in if cmd = ''quota'' then Some (go_on (CmdQuota s1 cmdArgs))
              else if cmd = ''compare'' then Some (go_on (CmdCompare s1 cmdArgs))
              else if cmd = ''put'' then Some (quota_exceeded (CmdPut s1 cmdArgs))
              else if cmd = ''fill'' then map_option quota_exceeded (CmdFill s1 cmdArgs)
              else if cmd = ''copy'' then Some (quota_exceeded (CmdCopy s1 cmdArgs))
              else if cmd = ''dump'' then Some (go_on (CmdDump s1 cmdArgs))
              else if cmd = ''writable'' then Some (go_on (CmdWritable s1 cmdArgs))
              else if cmd \<noteq> [] then Some (Inl (Exit2_InvalidCommand (line_number s1) line))
              else Some (Inr (s1, True))))"

function Execute_loop :: "state \<Rightarrow> int \<Rightarrow> int \<Rightarrow> (fatal + (state \<times> int)) option" where
  "Execute_loop s i num_lines =
     (if i < num_lines then
        (case Execute_body s of
           None \<Rightarrow> None
         | Some (Inl e) \<Rightarrow> Some (Inl e)
         | Some (Inr (s1, True)) \<Rightarrow> Execute_loop s1 (i + 1) num_lines
         | Some (Inr (s1, False)) \<Rightarrow> Some (Inr (s1, i)))
      else Some (Inr (get_PMCB_vmem s, num_lines)))"
  by pat_completeness auto
termination
  by (relation "measure (\<lambda>(s, i, n). nat (n - i))") auto

declare Execute_loop.simps [simp del]

definition Execute :: "state \<Rightarrow> int \<Rightarrow> (fatal + (state \<times> int)) option" where
  "Execute s num_lines = Execute_loop (set_PMCB s (vmem_pmcb s)) 0 num_lines"

subsection \<open>The constructor (lines 30-47)\<close>

text \<open>
  The arguments are the physical memory and the free frames the MMU and the allocator
  hold when the process is created, the lines of the trace file (\<open>None\<close> when it cannot
  be opened), the process id, and the value the member \<^verbatim>\<open>QUOTA\<close>, which the
  constructor does not initialise, happens to hold.
\<close>

definition ProcessTrace ::
  "(Addr \<Rightarrow> byte) \<Rightarrow> Addr list \<Rightarrow> string list option \<Rightarrow> int \<Rightarrow> 32 word \<Rightarrow> fatal + state" where
  "ProcessTrace memory allocator file pid quota0 =
     (case file of
        None \<Rightarrow> Inl Exit2_OpenFailed
      | Some lines \<Rightarrow>
          (let s = \<lparr>phys = memory, mmu_pmcb = pmem_pmcb, accesses = [],
                    free_frames = allocator, out = [], trace = lines, line_number = 0,
                    id_number = pid, allocated_pages = 0, QUOTA = quota0,
                    vmem_pmcb = mk_PMCB False 0\<rparr>
           in case Allocate1 s of
                Inl e \<Rightarrow> Inl e
              | Inr (s1, frame) \<Rightarrow>
                  (let s2 = s1\<lparr>vmem_pmcb := mk_PMCB True frame\<rparr>
                   in Inr (set_PMCB s2 (vmem_pmcb s2)))))"

section \<open>Properties\<close>

subsection \<open>Evaluating the parser on a concrete line\<close>

lemmas parse_eval = ParseCommand_def extract_word_def isspace_def Let_def
  extract_args.simps extract_hex_def strip_sign_def strip_0x_def hex_digit_def

subsection \<open>Lines with too few arguments\<close>

text \<open>
  Claim C10. Some well-formed trace line whose keyword is known but which carries fewer
  hexadecimal arguments than the command needs ends the program through an uncaught
  \<^verbatim>\<open>std::out_of_range\<close> of \<^verbatim>\<open>cmdArgs.at\<close>, not through \<^verbatim>\<open>exit(2)\<close> or a reported fault:
  \<^verbatim>\<open>quota\<close> with no argument, \<^verbatim>\<open>fill\<close> with two, \<^verbatim>\<open>dump\<close> with one, whatever the state
  of the process.
\<close>

theorem too_few_arguments_uncaught_out_of_range:
  "Execute (s\<lparr>trace := [''quota'']\<rparr>) 1 = Some (Inl Uncaught_out_of_range) \<and>
   Execute (s\<lparr>trace := [''fill 0 1'']\<rparr>) 1 = Some (Inl Uncaught_out_of_range) \<and>
   Execute (s\<lparr>trace := [''dump 0'']\<rparr>) 1 = Some (Inl Uncaught_out_of_range)"
  by (simp add: Execute_def Execute_loop.simps Execute_body_def set_PMCB_def parse_eval
        CmdQuota_def CmdFill_def CmdDump_def)

subsection \<open>Empty lines\<close>

text \<open>
  Claim C8 says that parsing and dispatch are total and that blank lines are skipped.
  On an empty line \<^verbatim>\<open>line.at(0)\<close> throws and nothing catches it: the program ends
  there, whatever follows in the trace, while a line of white space is skipped.
\<close>

theorem empty_line_ends_program:
  "Execute (s\<lparr>trace := [] # rest\<rparr>) 1 = Some (Inl Uncaught_out_of_range) \<and>
   (\<exists>s'. Execute (s\<lparr>trace := ['' '']\<rparr>) 1 = Some (Inr (s', 1)))"
  by (simp add: Execute_def Execute_loop.simps Execute_body_def set_PMCB_def parse_eval)

subsection \<open>Page-table entries in physical memory\<close>

definition put32 :: "(Addr \<Rightarrow> byte) \<Rightarrow> Addr \<Rightarrow> 32 word \<Rightarrow> (Addr \<Rightarrow> byte)" where
  "put32 m a v = m(a := ucast v, a + 1 := ucast (drop_bit 8 v),
                   a + 2 := ucast (drop_bit 16 v), a + 3 := ucast (drop_bit 24 v))"

lemma write_physical_bytes_of32: "write_physical m a (bytes_of32 v) = put32 m a v"
  by (simp add: bytes_of32_def put32_def add.assoc)

lemma read_physical_4: "read_physical m a 4 = [m a, m (a + 1), m (a + 2), m (a + 3)]"
  by (simp add: eval_nat_numeral add.assoc)

lemma word_of_4_bytes:
  "word_of_bytes [b0, b1, b2, b3] =
     ucast b0 OR push_bit 8 (ucast b1) OR push_bit 16 (ucast b2) OR push_bit 24 (ucast b3)"
  unfolding word_of_bytes_def
  apply (rule bit_word_eqI)
  subgoal for n
    by (cases "n < 8"; cases "n < 16"; cases "n < 24") (auto simp: bit_simps)
  done

lemma word_of_bytes_read_physical: "word_of_bytes (read_physical m a 4) = get32 m a"
  by (simp only: read_physical_4 word_of_4_bytes get32_def)

lemma word32_of_bytes:
  "ucast (ucast v :: byte) OR push_bit 8 (ucast (ucast (drop_bit 8 v) :: byte)) OR
   push_bit 16 (ucast (ucast (drop_bit 16 v) :: byte)) OR
   push_bit 24 (ucast (ucast (drop_bit 24 v) :: byte)) = (v :: 32 word)"
  apply (rule bit_word_eqI)
  subgoal for n
    by (cases "n < 8"; cases "n < 16"; cases "n < 24") (auto simp: bit_simps)
  done

lemma get32_put32_same [simp]: "get32 (put32 m a v) a = v"
  unfolding get32_def put32_def
  by (simp add: word32_of_bytes)

lemma length_bytes_of32 [simp]: "length (bytes_of32 v) = 4"
  by (simp add: bytes_of32_def)

lemma read_PTE_phys:
  "\<not> vm_enable (mmu_pmcb s) \<Longrightarrow>
     read_PTE s a =
       Inr (s\<lparr>accesses := accesses s @
              [Access False READ_OP a 4 (read_physical (phys s) a 4) None]\<rparr>, get32 (phys s) a)"
  by (simp add: read_PTE_def get_bytes_def word_of_bytes_read_physical)

lemma write_PTE_phys:
  "\<not> vm_enable (mmu_pmcb s) \<Longrightarrow>
     write_PTE s a v =
       Inr (s\<lparr>phys := put32 (phys s) a v,
              accesses := accesses s @ [Access False WRITE_OP a 4 (bytes_of32 v) None]\<rparr>)"
  by (simp add: write_PTE_def put_bytes_def write_physical_bytes_of32)

subsection \<open>Alignment\<close>

definition aligned4 :: "Addr \<Rightarrow> bool" where
  "aligned4 a \<longleftrightarrow> a AND 3 = 0"

lemma m12: "(0xFFF :: 32 word) = mask 12" by (simp add: mask_eq_exp_minus_1)
lemma m10: "(0x3FF :: 32 word) = mask 10" by (simp add: mask_eq_exp_minus_1)
lemma m2: "(3 :: 32 word) = mask 2" by (simp add: mask_eq_exp_minus_1)
lemma mpage: "(0xFFFFF000 :: 32 word) = NOT (mask 12)" by (simp add: mask_eq_exp_minus_1)
lemma four_times: "(4 :: 32 word) * i = push_bit 2 i" by (simp add: push_bit_eq_mult)

definition bytes4 :: "Addr \<Rightarrow> Addr set" where
  "bytes4 a = {a, a + 1, a + 2, a + 3}"

lemma aligned4_dvd: "aligned4 a \<longleftrightarrow> 4 dvd unat a"
  using and_mask_dvd_nat [of 2 a] by (simp add: aligned4_def m2)

lemma bytes4_base:
  assumes "aligned4 a" "x \<in> bytes4 a"
  shows "unat x div 4 * 4 = unat a"
proof -
  have d: "4 dvd unat a" using assms(1) by (simp add: aligned4_dvd)
  have "unat a < 4294967296" using unsigned_less [of a, where 'a = nat] by simp
  with d have le: "unat a + 3 < 4294967296" by presburger
  have u: "unat (a + 1) = unat a + 1" "unat (a + 2) = unat a + 2" "unat (a + 3) = unat a + 3"
    using le by (simp_all add: unat_add_lem [THEN iffD1])
  from assms(2) consider "x = a" | "x = a + 1" | "x = a + 2" | "x = a + 3"
    by (auto simp: bytes4_def)
  then show ?thesis using d u by cases (simp_all, presburger+)
qed

lemma bytes4_disjoint:
  assumes "aligned4 a" "aligned4 b" "a \<noteq> b"
  shows "bytes4 a \<inter> bytes4 b = {}"
proof (rule ccontr)
  assume "bytes4 a \<inter> bytes4 b \<noteq> {}"
  then obtain x where "x \<in> bytes4 a" "x \<in> bytes4 b" by auto
  then have "unat a = unat b"
    using bytes4_base [OF assms(1)] bytes4_base [OF assms(2)] by metis
  with assms(3) show False by (simp add: word_unat_eq_iff)
qed

lemma put32_outside: "x \<notin> bytes4 a \<Longrightarrow> put32 m a v x = m x"
  by (simp add: put32_def bytes4_def)

lemma get32_cong: "(\<And>x. x \<in> bytes4 b \<Longrightarrow> m x = m' x) \<Longrightarrow> get32 m b = get32 m' b"
  by (simp add: get32_def bytes4_def)

lemma get32_put32_other:
  assumes "aligned4 a" "aligned4 b" "a \<noteq> b"
  shows "get32 (put32 m a v) b = get32 m b"
  using bytes4_disjoint [OF assms]
  by (intro get32_cong put32_outside) auto

subsection \<open>Case analysis of one pass\<close>

lemma on_page_fault_elim:
  assumes "on_page_fault s start wanted = Inr (s', bw, p)"
  obtains
    (leave) "p = Leave" "s' = get_PMCB_vmem s"
      "unat (next_vaddress (mmu_pmcb s) - start) = wanted"
  | (quota) "p = ReturnFalse" "s' = get_PMCB_vmem s" "allocated_pages s = QUOTA s"
      "unat (next_vaddress (mmu_pmcb s) - start) \<noteq> wanted"
  | (again) s2 where "p = Again" "allocated_pages s \<noteq> QUOTA s"
      "AllocateAndMapPage (set_PMCB (get_PMCB_vmem s) pmem_pmcb)
         (next_vaddress (mmu_pmcb s) AND kPageNumberMask) = Inr s2"
      "s' = s2\<lparr>allocated_pages := allocated_pages s2 + 1\<rparr>"
      "unat (next_vaddress (mmu_pmcb s) - start) \<noteq> wanted"
  using assms
  by (auto simp: on_page_fault_def Let_def get_PMCB_vmem_def split: if_splits sum.splits)

lemma on_page_fault_bw:
  "on_page_fault s start wanted = Inr (s', bw, p) \<Longrightarrow> bw = next_vaddress (mmu_pmcb s) - start"
  by (auto simp: on_page_fault_def Let_def get_PMCB_vmem_def split: if_splits sum.splits)

lemma write_pass_elim:
  assumes "write_pass s addr c buf = Inr (s', p)"
  obtains
    (complete) "put_bytes (clear_and_activate s) addr (take c buf) = (s', None)" "p = Leave"
  | (wpf) s1 where
      "put_bytes (clear_and_activate s) addr (take c buf) =
         (s1, Some WritePermissionFaultException)"
      "s' = PrintAndClearException s1 ''WritePermissionFaultException''" "p = Leave"
  | (pf) s1 bw where
      "put_bytes (clear_and_activate s) addr (take c buf) = (s1, Some PageFaultException)"
      "on_page_fault s1 addr c = Inr (s', bw, p)"
  using assms
  by (auto simp: write_pass_def split: prod.splits option.splits fault.splits sum.splits)

lemma fill_pass_elim:
  assumes "fill_pass s addr bw start n val = Inr (s', addr', bw', p)"
  obtains
    (complete) "fill_for (clear_and_activate s) addr bw n val = (s', addr', bw', None)"
      "p = (if bw' = n then Leave else Again)"
  | (wpf) s1 where
      "fill_for (clear_and_activate s) addr bw n val =
         (s1, addr', bw', Some WritePermissionFaultException)"
      "s' = PrintAndClearException s1 ''WritePermissionFaultException''" "p = Leave"
  | (pf) s1 bw1 where
      "fill_for (clear_and_activate s) addr bw n val = (s1, addr', bw1, Some PageFaultException)"
      "on_page_fault s1 start (unat n) = Inr (s', bw', p)"
  using assms
  by (auto simp: fill_pass_def split: prod.splits option.splits fault.splits sum.splits)

subsection \<open>Invariant rules for the retry loops\<close>

lemma write_loop_rule:
  assumes run: "write_loop s addr c buf = Inr (r, ok)"
    and init: "I s"
    and step: "\<And>s s'. I s \<Longrightarrow> write_pass s addr c buf = Inr (s', Again) \<Longrightarrow> I s'"
    and leave: "\<And>s s'. I s \<Longrightarrow> write_pass s addr c buf = Inr (s', Leave) \<Longrightarrow>
                  Q (set_PMCB s' (vmem_pmcb s')) True"
    and quota: "\<And>s s'. I s \<Longrightarrow> write_pass s addr c buf = Inr (s', ReturnFalse) \<Longrightarrow> Q s' False"
  shows "Q r ok"
proof -
  have "write_loop s addr' c' buf' = Inr (r, ok) \<Longrightarrow> addr' = addr \<Longrightarrow> c' = c \<Longrightarrow>
        buf' = buf \<Longrightarrow> I s \<Longrightarrow> Q r ok" for s addr' c' buf'
  proof (induction s addr' c' buf' rule: write_loop.induct)
    case (1 s addr' c' buf')
    note eq = "1.prems"(2,3,4) and i = "1.prems"(5)
    have run: "write_loop s addr c buf = Inr (r, ok)" using "1.prems"(1) eq by simp
    show ?case
    proof (cases "write_pass s addr c buf")
      case (Inl e)
      with run show ?thesis by (simp add: write_loop.simps)
    next
      case (Inr b)
      obtain s' p where b: "b = (s', p)" by (cases b)
      show ?thesis
      proof (cases p)
        case Again
        with Inr b run have "write_loop s' addr c buf = Inr (r, ok)"
          by (simp add: write_loop.simps [of s])
        moreover have "I s'" using step [OF i] Inr b Again by simp
        ultimately show ?thesis using "1.IH" [of b s' p] Inr b Again eq by simp
      next
        case Leave
        with Inr b run have "r = set_PMCB s' (vmem_pmcb s')" "ok"
          by (simp_all add: write_loop.simps [of s])
        with leave [OF i] Inr b Leave show ?thesis by simp
      next
        case ReturnFalse
        with Inr b run have "r = s'" "\<not> ok"
          by (simp_all add: write_loop.simps [of s])
        with quota [OF i] Inr b ReturnFalse show ?thesis by simp
      qed
    qed
  qed
  from this [OF run] init show ?thesis by simp
qed

lemma fill_loop_rule:
  assumes run: "fill_loop s addr bw start n val = Some (Inr (r, ok))"
    and init: "I s addr bw"
    and step: "\<And>s addr bw s' addr' bw'. I s addr bw \<Longrightarrow>
                 fill_pass s addr bw start n val = Inr (s', addr', bw', Again) \<Longrightarrow> I s' addr' bw'"
    and leave: "\<And>s addr bw s' addr' bw'. I s addr bw \<Longrightarrow>
                 fill_pass s addr bw start n val = Inr (s', addr', bw', Leave) \<Longrightarrow>
                  Q (set_PMCB s' (vmem_pmcb s')) True"
    and quota: "\<And>s addr bw s' addr' bw'. I s addr bw \<Longrightarrow>
                 fill_pass s addr bw start n val = Inr (s', addr', bw', ReturnFalse) \<Longrightarrow>
                  Q s' False"
  shows "Q r ok"
proof -
  define P where "P = (\<lambda>s addr bw start' n' val' (y :: fatal + state \<times> bool).
        start' = start \<longrightarrow> n' = n \<longrightarrow> val' = val \<longrightarrow> I s addr bw \<longrightarrow>
        (\<forall>r ok. y = Inr (r, ok) \<longrightarrow> Q r ok))"
  have "P s addr bw start' n' val' y" if "fill_loop s addr bw start' n' val' = Some y"
    for s addr bw start' n' val' y
  proof (rule fill_loop.raw_induct [OF _ that], goal_cases)
    case (1 f s addr bw start' n' val' y)
    note hyps = 1
    show ?case
      unfolding P_def
    proof (intro impI allI)
      fix r ok
      assume eq: "start' = start" "n' = n" "val' = val" and i: "I s addr bw"
        and y: "y = Inr (r, ok)"
      show "Q r ok"
      proof (cases "fill_pass s addr bw start n val")
        case (Inl e)
        with hyps(2) eq y show ?thesis by simp
      next
        case (Inr b)
        obtain s' addr' bw' p where b: "b = (s', addr', bw', p)" by (cases b)
        show ?thesis
        proof (cases p)
          case Again
          with Inr b hyps(2) eq have "f s' addr' bw' start n val = Some y"
            by simp
          from hyps(1) [OF this] step [OF i] Inr b Again y show ?thesis by (simp add: P_def)
        next
          case Leave
          with Inr b hyps(2) eq y have "r = set_PMCB s' (vmem_pmcb s')" "ok"
            by simp_all
          with leave [OF i] Inr b Leave show ?thesis by simp
        next
          case ReturnFalse
          with Inr b hyps(2) eq y have "r = s'" "\<not> ok"
            by simp_all
          with quota [OF i] Inr b ReturnFalse show ?thesis by simp
        qed
      qed
    qed
  qed
  from this [OF run] init show ?thesis by (simp add: P_def)
qed


subsection \<open>Evaluating the commands on a concrete state\<close>

lemmas mem_consts = kPageSize_def kPageSizeBits_def kPageTableSizeBits_def
  kPageTableIndexMask_def kPageNumberMask_def kPTE_PresentMask_def kPTE_WritableMask_def
  sizeof_PTE_def

lemmas mmu_eval = get_bytes_def put_bytes_def get_byte_def put_byte_def translate_def
  get32_def put32_def mark_def mem_consts set_PMCB_def get_PMCB_vmem_def pmem_pmcb_def
  mk_PMCB_def Allocate1_def read_PTE_phys write_PTE_phys

lemmas cmd_eval = mmu_eval ensure_L1_def AllocateAndMapPage_def SetWritableStatus_def
  on_page_fault_def clear_and_activate_def write_pass_def fill_pass_def
  PrintAndClearException_def Let_def

lemma read_virtual_numeral:
  "read_virtual m root a (numeral k) = read_virtual m root a (Suc (pred_numeral k))"
  by (simp add: numeral_eq_Suc)

lemma writable_loop_numeral:
  "writable_loop s vaddr (numeral k) w = writable_loop s vaddr (Suc (pred_numeral k)) w"
  by (simp add: numeral_eq_Suc)

lemmas nat_numeral_eval = read_virtual_numeral writable_loop_numeral

text \<open>A process just created on a machine whose memory is all zero and whose allocator
  holds the frames from \<open>0x1000\<close> on; \<^verbatim>\<open>QUOTA\<close> happens to be \<open>0\<close>.\<close>

definition fresh :: state where
  "fresh = \<lparr>phys = \<lambda>_. 0, mmu_pmcb = mk_PMCB True 0x1000, accesses = [],
     free_frames = [0x2000, 0x3000, 0x4000, 0x5000], out = [], trace = [], line_number = 0,
     id_number = 1, allocated_pages = 0, QUOTA = 0, vmem_pmcb = mk_PMCB True 0x1000\<rparr>"

lemma ProcessTrace_fresh:
  "ProcessTrace (\<lambda>_. 0) [0x1000, 0x2000, 0x3000, 0x4000, 0x5000] (Some []) 1 0 = Inr fresh"
  by (simp add: ProcessTrace_def fresh_def cmd_eval)

subsection \<open>The process's context stays active\<close>

definition mmu_virtual :: "Addr \<Rightarrow> state \<Rightarrow> bool" where
  "mmu_virtual b s \<longleftrightarrow> vm_enable (mmu_pmcb s) \<and> page_table_base (mmu_pmcb s) = b"

definition vmem_virtual :: "Addr \<Rightarrow> state \<Rightarrow> bool" where
  "vmem_virtual b s \<longleftrightarrow> vm_enable (vmem_pmcb s) \<and> page_table_base (vmem_pmcb s) = b"

text \<open>The process's addressing context is the one active in the MMU, in virtual mode,
  with the page table rooted at \<open>b\<close>.\<close>
definition virtual_active :: "Addr \<Rightarrow> state \<Rightarrow> bool" where
  "virtual_active b s \<longleftrightarrow> mmu_virtual b s \<and> vmem_virtual b s"

lemma same_proc_virtual:
  "same_proc s s' \<Longrightarrow> mmu_virtual b s \<Longrightarrow> mmu_virtual b s'"
  "same_proc s s' \<Longrightarrow> vmem_virtual b s \<Longrightarrow> vmem_virtual b s'"
  by (simp_all add: same_proc_def mmu_virtual_def vmem_virtual_def)

lemma clear_and_activate_virtual:
  "vmem_virtual b s \<Longrightarrow> virtual_active b (clear_and_activate s)"
  by (simp add: clear_and_activate_def Let_def set_PMCB_def virtual_active_def
        mmu_virtual_def vmem_virtual_def)

lemma PrintAndClearException_virtual:
  "mmu_virtual b s \<Longrightarrow> virtual_active b (PrintAndClearException s t)"
  by (simp add: PrintAndClearException_def Let_def set_PMCB_def get_PMCB_vmem_def
        virtual_active_def mmu_virtual_def vmem_virtual_def)

lemma get_PMCB_vmem_virtual:
  "mmu_virtual b s \<Longrightarrow> virtual_active b (get_PMCB_vmem s)"
  by (simp add: get_PMCB_vmem_def virtual_active_def mmu_virtual_def vmem_virtual_def)

lemma set_PMCB_vmem_virtual:
  "vmem_virtual b s \<Longrightarrow> virtual_active b (set_PMCB s (vmem_pmcb s))"
  by (simp add: set_PMCB_def virtual_active_def mmu_virtual_def vmem_virtual_def)

lemma on_page_fault_virtual:
  assumes "on_page_fault s start wanted = Inr (s', bw, p)" "mmu_virtual b s"
  shows "vmem_virtual b s' \<and> (p \<noteq> Again \<longrightarrow> virtual_active b s')"
  using assms(1)
proof (cases rule: on_page_fault_elim)
  case leave
  with get_PMCB_vmem_virtual [OF assms(2)] show ?thesis by (simp add: virtual_active_def)
next
  case quota
  with get_PMCB_vmem_virtual [OF assms(2)] show ?thesis by (simp add: virtual_active_def)
next
  case (again s2)
  let ?s1 = "set_PMCB (get_PMCB_vmem s) pmem_pmcb"
  have "vmem_virtual b ?s1"
    using assms(2) by (simp add: set_PMCB_def get_PMCB_vmem_def mmu_virtual_def vmem_virtual_def)
  with AllocateAndMapPage_cases [OF again(3)] have "vmem_virtual b s2"
    by (auto dest: same_proc_virtual)
  with again show ?thesis by (simp add: vmem_virtual_def)
qed

lemma write_pass_virtual:
  assumes "write_pass s addr c buf = Inr (s', p)" "vmem_virtual b s"
  shows "vmem_virtual b s' \<and> (p = ReturnFalse \<longrightarrow> virtual_active b s')"
  using assms(1)
proof (cases rule: write_pass_elim)
  case complete
  from put_bytes_same [OF complete(1)] clear_and_activate_virtual [OF assms(2)] complete
  show ?thesis by (auto simp: virtual_active_def dest: same_proc_virtual)
next
  case (wpf s1)
  from put_bytes_same [OF wpf(1)] clear_and_activate_virtual [OF assms(2)]
  have "mmu_virtual b s1" by (auto simp: virtual_active_def dest: same_proc_virtual)
  from PrintAndClearException_virtual [OF this] wpf show ?thesis
    by (simp add: virtual_active_def)
next
  case (pf s1 bw)
  from put_bytes_same [OF pf(1)] clear_and_activate_virtual [OF assms(2)]
  have "mmu_virtual b s1" by (auto simp: virtual_active_def dest: same_proc_virtual)
  from on_page_fault_virtual [OF pf(2) this] show ?thesis by auto
qed

lemma write_loop_virtual:
  assumes "write_loop s addr c buf = Inr (s', ok)" "vmem_virtual b s"
  shows "virtual_active b s'"
  by (rule write_loop_rule [OF assms(1), where I = "vmem_virtual b" and Q = "\<lambda>s ok. virtual_active b s"])
     (use assms(2) in \<open>auto dest: write_pass_virtual set_PMCB_vmem_virtual\<close>)

lemma put_byte_same: "put_byte s a v = (s', r) \<Longrightarrow> same_proc s s'"
  unfolding put_byte_def by (rule put_bytes_same)

lemma fill_for_same:
  "fill_for s a bw n v = (s', a', bw', r) \<Longrightarrow> same_proc s s' \<and> free_frames s' = free_frames s"
proof (induction s a bw n v rule: fill_for.induct)
  case (1 s a bw n v)
  show ?case
  proof (cases "bw < n")
    case False
    with "1.prems" show ?thesis by (simp add: fill_for.simps)
  next
    case True
    obtain s1 r1 where p: "put_byte s a v = (s1, r1)" by (cases "put_byte s a v")
    have f: "same_proc s s1" "free_frames s1 = free_frames s"
      using put_byte_same [OF p] put_bytes_frame [of s a "[v]" s1 r1] p
      by (simp_all add: put_byte_def)
    show ?thesis
    proof (cases r1)
      case None
      with True p "1.prems" have "fill_for s1 (a + 1) (bw + 1) n v = (s', a', bw', r)"
        by (simp add: fill_for.simps [of s])
      from "1.IH" [OF True p [symmetric] None this] f show ?thesis
        by (auto intro: same_proc_trans)
    next
      case (Some f')
      with True p "1.prems" have "s' = s1" by (simp add: fill_for.simps [of s])
      with f show ?thesis by simp
    qed
  qed
qed

lemma fill_pass_virtual:
  assumes "fill_pass s addr bw start n val = Inr (s', addr', bw', p)" "vmem_virtual b s"
  shows "vmem_virtual b s' \<and> (p = ReturnFalse \<longrightarrow> virtual_active b s')"
  using assms(1)
proof (cases rule: fill_pass_elim)
  case complete
  from fill_for_same [OF complete(1)] clear_and_activate_virtual [OF assms(2)] complete(2)
  show ?thesis by (auto simp: virtual_active_def dest: same_proc_virtual)
next
  case (wpf s1)
  from fill_for_same [OF wpf(1)] clear_and_activate_virtual [OF assms(2)]
  have "mmu_virtual b s1" by (auto simp: virtual_active_def dest: same_proc_virtual)
  from PrintAndClearException_virtual [OF this] wpf show ?thesis
    by (simp add: virtual_active_def)
next
  case (pf s1 bw1)
  from fill_for_same [OF pf(1)] clear_and_activate_virtual [OF assms(2)]
  have "mmu_virtual b s1" by (auto simp: virtual_active_def dest: same_proc_virtual)
  from on_page_fault_virtual [OF pf(2) this] show ?thesis by auto
qed

lemma fill_loop_virtual:
  assumes "fill_loop s addr bw start n val = Some (Inr (s', ok))" "vmem_virtual b s"
  shows "virtual_active b s'"
  by (rule fill_loop_rule [OF assms(1), where I = "\<lambda>s a w. vmem_virtual b s"
        and Q = "\<lambda>s ok. virtual_active b s"])
     (use assms(2) in \<open>auto dest: fill_pass_virtual set_PMCB_vmem_virtual\<close>)

lemma get_byte_same: "get_byte s a = (s', r) \<Longrightarrow> same_proc s s'"
  unfolding get_byte_def
  by (cases "get_bytes s a 1") (auto split: option.splits dest: get_bytes_same)

lemma dump_for_virtual:
  "dump_for s a i c = (s', r) \<Longrightarrow> virtual_active b s \<Longrightarrow> virtual_active b s'"
proof (induction s a i c rule: dump_for.induct)
  case (1 s a i c)
  show ?case
  proof (cases "i < c")
    case False
    with "1.prems" show ?thesis by (simp add: dump_for.simps)
  next
    case True
    define s1 where "s1 = (if unat i mod 16 = 0 then s\<lparr>out := out s @ [DumpNewline]\<rparr> else s)"
    have v1: "virtual_active b s1"
      using "1.prems"(2) by (simp add: s1_def virtual_active_def mmu_virtual_def vmem_virtual_def)
    obtain s2 r2 where g: "get_byte s1 a = (s2, r2)" by (cases "get_byte s1 a")
    have v2: "virtual_active b s2"
      using get_byte_same [OF g] v1 by (auto simp: virtual_active_def dest: same_proc_virtual)
    show ?thesis
    proof (cases r2)
      case (Inl f)
      with True g "1.prems"(1) have "s' = s2"
        by (simp add: dump_for.simps [of s] s1_def Let_def)
      with v2 show ?thesis by simp
    next
      case (Inr byte_val)
      let ?s3 = "s2\<lparr>out := out s2 @ [DumpByte byte_val]\<rparr>"
      from Inr True g "1.prems"(1) have run: "dump_for ?s3 (a + 1) (i + 1) c = (s', r)"
        by (simp add: dump_for.simps [of s] s1_def Let_def)
      have "virtual_active b ?s3"
        using v2 by (simp add: virtual_active_def mmu_virtual_def vmem_virtual_def)
      from "1.IH" [OF True s1_def g [symmetric] Inr run this] show ?thesis .
    qed
  qed
qed

lemma SetWritableStatus_same:
  assumes "SetWritableStatus s vaddr w = Inr s'"
  shows "same_proc s s' \<and> free_frames s' = free_frames s"
proof -
  let ?a1 = "page_table_base (vmem_pmcb s) +
             sizeof_PTE * drop_bit (kPageSizeBits + kPageTableSizeBits) vaddr"
  from assms obtain s1 l1 where r1: "read_PTE s ?a1 = Inr (s1, l1)"
    by (auto simp: SetWritableStatus_def Let_def split: sum.splits)
  note f1 = read_PTE_same [OF r1] read_PTE_frame [OF r1]
  show ?thesis
  proof (cases "l1 AND kPTE_PresentMask = 0")
    case True
    with assms r1 have "s' = s1" by (simp add: SetWritableStatus_def Let_def)
    with f1 show ?thesis by simp
  next
    case False
    let ?a2 = "(l1 AND kPageNumberMask) +
               sizeof_PTE * (drop_bit kPageSizeBits vaddr AND kPageTableIndexMask)"
    from assms r1 False obtain s2 l2 where r2: "read_PTE s1 ?a2 = Inr (s2, l2)"
      by (auto simp: SetWritableStatus_def Let_def split: sum.splits)
    note f2 = read_PTE_same [OF r2] read_PTE_frame [OF r2]
    show ?thesis
    proof (cases "l2 AND kPTE_PresentMask = 0")
      case True
      with assms r1 r2 False have "s' = s2" by (simp add: SetWritableStatus_def Let_def)
      with f1 f2 show ?thesis by (auto intro: same_proc_trans)
    next
      case l2: False
      with assms r1 r2 False obtain v where w: "write_PTE s2 ?a2 v = Inr s'"
        by (simp add: SetWritableStatus_def Let_def)
      from write_PTE_same [OF w] write_PTE_frame [OF w] f1 f2 show ?thesis
        by (auto intro: same_proc_trans)
    qed
  qed
qed

lemma writable_loop_same:
  "writable_loop s vaddr n w = Inr s' \<Longrightarrow> same_proc s s' \<and> free_frames s' = free_frames s"
proof (induction n arbitrary: s vaddr)
  case 0
  then show ?case by simp
next
  case (Suc n)
  from Suc.prems obtain s1 where 1: "SetWritableStatus s vaddr w = Inr s1"
    and 2: "writable_loop s1 (vaddr + 0x1000) n w = Inr s'"
    by (auto split: sum.splits)
  from SetWritableStatus_same [OF 1] Suc.IH [OF 2] show ?case
    by (auto intro: same_proc_trans)
qed

lemma CmdPut_virtual:
  "CmdPut s args = Inr (s', ok) \<Longrightarrow> virtual_active b s \<Longrightarrow> virtual_active b s'"
  by (auto simp: CmdPut_def Let_def virtual_active_def split: list.splits
           dest!: write_loop_virtual [where b = b])

lemma CmdFill_virtual:
  "CmdFill s args = Some (Inr (s', ok)) \<Longrightarrow> virtual_active b s \<Longrightarrow> virtual_active b s'"
  by (auto simp: CmdFill_def virtual_active_def split: list.splits
           dest!: fill_loop_virtual [where b = b])

lemma CmdCopy_virtual:
  assumes "CmdCopy s args = Inr (s', ok)" "virtual_active b s"
  shows "virtual_active b s'"
proof -
  from assms(1) obtain dst src n rest where args: "args = dst # src # n # rest"
    by (auto simp: CmdCopy_def split: list.splits)
  obtain s1 buf r where g: "get_bytes s src (unat n) = (s1, buf, r)"
    by (cases "get_bytes s src (unat n)")
  have m1: "mmu_virtual b s1"
    using get_bytes_same [OF g] assms(2) by (auto simp: virtual_active_def dest: same_proc_virtual)
  define s2 where "s2 = (case r of None \<Rightarrow> s1
                          | Some _ \<Rightarrow> PrintAndClearException s1 ''PageFaultException on read'')"
  have "mmu_virtual b s2"
    using m1 PrintAndClearException_virtual [OF m1]
    by (auto simp: s2_def virtual_active_def split: option.splits)
  then have v3: "vmem_virtual b (get_PMCB_vmem s2)"
    using get_PMCB_vmem_virtual by (auto simp: virtual_active_def)
  from assms(1) args g have
    "write_loop (get_PMCB_vmem s2) dst
       (unat (next_vaddress (vmem_pmcb (get_PMCB_vmem s2)) - src)) buf = Inr (s', ok)"
    by (auto simp: CmdCopy_def Let_def s2_def split: option.splits fault.splits)
  from write_loop_virtual [OF this v3] show ?thesis .
qed

lemma CmdCompare_virtual:
  assumes "CmdCompare s args = Inr s'" "virtual_active b s"
  shows "virtual_active b s'"
proof -
  from assms(1) obtain addr expected where args: "args = addr # expected"
    by (auto simp: CmdCompare_def split: list.splits)
  obtain s1 buf r where g: "get_bytes s addr (length expected) = (s1, buf, r)"
    by (cases "get_bytes s addr (length expected)")
  have v1: "virtual_active b s1"
    using get_bytes_same [OF g] assms(2) by (auto simp: virtual_active_def dest: same_proc_virtual)
  then have "mmu_virtual b s1" by (simp add: virtual_active_def)
  note p = PrintAndClearException_virtual [OF this]
  from assms(1) args g v1 p show ?thesis
    by (auto simp: CmdCompare_def virtual_active_def mmu_virtual_def vmem_virtual_def
             split: option.splits fault.splits)
qed

lemma CmdDump_virtual:
  assumes "CmdDump s args = Inr s'" "virtual_active b s"
  shows "virtual_active b s'"
proof -
  from assms(1) obtain addr count rest where args: "args = addr # count # rest"
    by (auto simp: CmdDump_def split: list.splits)
  let ?s0 = "s\<lparr>out := out s @ [DumpAddr addr]\<rparr>"
  obtain s1 r where d: "dump_for ?s0 addr 0 count = (s1, r)"
    by (cases "dump_for ?s0 addr 0 count")
  have "virtual_active b ?s0"
    using assms(2) by (simp add: virtual_active_def mmu_virtual_def vmem_virtual_def)
  from dump_for_virtual [OF d this] have v1: "virtual_active b s1" .
  then have "mmu_virtual b (s1\<lparr>out := out s1 @ [DumpNewline]\<rparr>)"
    by (simp add: virtual_active_def mmu_virtual_def)
  note p = PrintAndClearException_virtual [OF this]
  from assms(1) args d v1 p show ?thesis
    by (auto simp: CmdDump_def virtual_active_def mmu_virtual_def vmem_virtual_def
             split: option.splits fault.splits)
qed

lemma CmdWritable_virtual:
  assumes "CmdWritable s args = Inr s'" "virtual_active b s"
  shows "virtual_active b s'"
proof -
  from assms(1) obtain vaddr bc flag rest where args: "args = vaddr # bc # flag # rest"
    by (auto simp: CmdWritable_def split: list.splits)
  let ?s2 = "set_PMCB (get_PMCB_vmem s) pmem_pmcb"
  from assms(1) args obtain s3 where
    l: "writable_loop ?s2 vaddr (unat (bc div kPageSize)) (flag \<noteq> 0) = Inr s3"
    and s': "s' = set_PMCB s3 (vmem_pmcb s3)"
    by (auto simp: CmdWritable_def Let_def split: sum.splits)
  have "vmem_virtual b ?s2"
    using assms(2)
    by (simp add: set_PMCB_def get_PMCB_vmem_def virtual_active_def mmu_virtual_def
          vmem_virtual_def)
  with writable_loop_same [OF l] have "vmem_virtual b s3"
    by (auto dest: same_proc_virtual)
  with s' show ?thesis by (simp add: set_PMCB_vmem_virtual)
qed


text \<open>
  Claim C3. Every command that returns to the command loop (compare, put, fill, copy,
  dump, writable) leaves the process's context active in the MMU in virtual mode, with
  the same page-table root, whether it completed, reported a write-permission fault or
  returned the quota failure (\<open>ok = False\<close>), provided it was entered that way, as
  \<^verbatim>\<open>Execute\<close> and the constructor arrange.
\<close>

theorem commands_leave_virtual_mode:
  assumes "virtual_active b s"
  shows "(\<forall>s'. CmdCompare s args = Inr s' \<longrightarrow> virtual_active b s') \<and>
         (\<forall>s' ok. CmdPut s args = Inr (s', ok) \<longrightarrow> virtual_active b s') \<and>
         (\<forall>s' ok. CmdFill s args = Some (Inr (s', ok)) \<longrightarrow> virtual_active b s') \<and>
         (\<forall>s' ok. CmdCopy s args = Inr (s', ok) \<longrightarrow> virtual_active b s') \<and>
         (\<forall>s'. CmdDump s args = Inr s' \<longrightarrow> virtual_active b s') \<and>
         (\<forall>s'. CmdWritable s args = Inr s' \<longrightarrow> virtual_active b s')"
  using assms
  by (blast intro: CmdCompare_virtual CmdPut_virtual CmdFill_virtual CmdCopy_virtual
        CmdDump_virtual CmdWritable_virtual)

lemma fresh_virtual_active: "virtual_active 0x1000 fresh"
  by (simp add: fresh_def virtual_active_def mmu_virtual_def vmem_virtual_def mk_PMCB_def)

theorem commands_leave_virtual_mode_witness:
  "virtual_active 0x1000 fresh \<and>
   (\<exists>s'. CmdCompare fresh [0, 1] = Inr s' \<and> virtual_active 0x1000 s') \<and>
   (\<exists>s'. CmdPut fresh [0, 1] = Inr (s', False) \<and> virtual_active 0x1000 s') \<and>
   (\<exists>s'. CmdFill fresh [0, 2, 7] = Some (Inr (s', False)) \<and> virtual_active 0x1000 s') \<and>
   (\<exists>s'. CmdCopy fresh [0, 0x2000, 2] = Inr (s', True) \<and> virtual_active 0x1000 s') \<and>
   (\<exists>s'. CmdDump fresh [0, 2] = Inr s' \<and> virtual_active 0x1000 s') \<and>
   (\<exists>s'. CmdWritable fresh [0, 0x2000, 0] = Inr s' \<and> virtual_active 0x1000 s')"
proof -
  note va = fresh_virtual_active
  have e1: "\<exists>s'. CmdCompare fresh [0, 1] = Inr s'"
    by (simp add: CmdCompare_def fresh_def cmd_eval)
  have e2: "\<exists>s'. CmdPut fresh [0, 1] = Inr (s', False)"
    apply (simp add: CmdPut_def fresh_def)
    apply (subst write_loop.simps, simp add: cmd_eval)
    done
  have e3: "\<exists>s'. CmdFill fresh [0, 2, 7] = Some (Inr (s', False))"
    apply (simp add: CmdFill_def fresh_def)
    apply (subst fill_loop.simps, simp add: cmd_eval fill_for.simps)
    done
  have e4: "\<exists>s'. CmdCopy fresh [0, 0x2000, 2] = Inr (s', True)"
    apply (simp add: CmdCopy_def fresh_def cmd_eval nat_numeral_eval)
    apply (subst write_loop.simps, simp add: cmd_eval)
    done
  have e5: "\<exists>s'. CmdDump fresh [0, 2] = Inr s'"
    by (simp add: CmdDump_def fresh_def cmd_eval dump_for.simps)
  have e6: "\<exists>s'. CmdWritable fresh [0, 0x2000, 0] = Inr s'"
    by (simp add: CmdWritable_def fresh_def cmd_eval nat_numeral_eval)
  from e1 commands_leave_virtual_mode [OF va, of "[0, 1]"]
  have 1: "\<exists>s'. CmdCompare fresh [0, 1] = Inr s' \<and> virtual_active 0x1000 s'" by blast
  from e2 commands_leave_virtual_mode [OF va, of "[0, 1]"]
  have 2: "\<exists>s'. CmdPut fresh [0, 1] = Inr (s', False) \<and> virtual_active 0x1000 s'" by blast
  from e3 commands_leave_virtual_mode [OF va, of "[0, 2, 7]"]
  have 3: "\<exists>s'. CmdFill fresh [0, 2, 7] = Some (Inr (s', False)) \<and> virtual_active 0x1000 s'"
    by blast
  from e4 commands_leave_virtual_mode [OF va, of "[0, 0x2000, 2]"]
  have 4: "\<exists>s'. CmdCopy fresh [0, 0x2000, 2] = Inr (s', True) \<and> virtual_active 0x1000 s'"
    by blast
  from e5 commands_leave_virtual_mode [OF va, of "[0, 2]"]
  have 5: "\<exists>s'. CmdDump fresh [0, 2] = Inr s' \<and> virtual_active 0x1000 s'" by blast
  from e6 commands_leave_virtual_mode [OF va, of "[0, 0x2000, 0]"]
  have 6: "\<exists>s'. CmdWritable fresh [0, 0x2000, 0] = Inr s' \<and> virtual_active 0x1000 s'"
    by blast
  from va 1 2 3 4 5 6 show ?thesis by blast
qed

subsection \<open>What a retry loop does to the counter, the allocator and the output\<close>

lemma taken_allocated_update [simp]:
  "taken j s (s'\<lparr>allocated_pages := x\<rparr>) = taken j s s'"
  by (simp add: taken_def)

lemma taken_clear_and_activate [simp]: "taken j (clear_and_activate s) s' = taken j s s'"
  by (simp add: taken_def clear_and_activate_def Let_def set_PMCB_def)

lemma taken_PrintAndClearException [simp]:
  "taken j s (PrintAndClearException s' t) = taken j s s'"
  by (simp add: taken_def PrintAndClearException_def Let_def set_PMCB_def get_PMCB_vmem_def)

text \<open>The fields of the process that only the command loop and \<^verbatim>\<open>CmdQuota\<close> write.\<close>
definition same_input :: "state \<Rightarrow> state \<Rightarrow> bool" where
  "same_input s s' \<longleftrightarrow>
     QUOTA s' = QUOTA s \<and> trace s' = trace s \<and> line_number s' = line_number s \<and>
     id_number s' = id_number s"

lemma same_input_refl [simp]: "same_input s s"
  by (simp add: same_input_def)

lemma same_input_trans: "same_input s s1 \<Longrightarrow> same_input s1 s2 \<Longrightarrow> same_input s s2"
  by (simp add: same_input_def)

lemma same_proc_input: "same_proc s s' \<Longrightarrow> same_input s s'"
  by (simp add: same_proc_def same_input_def)

lemma on_page_fault_effect:
  assumes "on_page_fault s start wanted = Inr (s', bw, p)"
  shows "out s' = out s \<and> same_input s s' \<and>
         (if p = Again
          then allocated_pages s \<noteq> QUOTA s \<and> allocated_pages s' = allocated_pages s + 1 \<and>
               (taken 1 s s' \<or> taken 2 s s')
          else allocated_pages s' = allocated_pages s \<and> taken 0 s s')"
  using assms
proof (cases rule: on_page_fault_elim)
  case (again s2)
  from AllocateAndMapPage_cases [OF again(3)] again(1,2,4) show ?thesis
    by (auto simp: same_proc_def same_input_def taken_def set_PMCB_def get_PMCB_vmem_def)
qed (simp_all add: get_PMCB_vmem_def same_input_def)

lemma write_pass_effect:
  assumes "write_pass s addr c buf = Inr (s', p)"
  shows "same_input s s' \<and>
         (\<exists>new. out s' = out s @ new \<and> (p \<noteq> Leave \<longrightarrow> new = [])) \<and>
         (if p = Again
          then allocated_pages s \<noteq> QUOTA s \<and> allocated_pages s' = allocated_pages s + 1 \<and>
               (taken 1 s s' \<or> taken 2 s s')
          else allocated_pages s' = allocated_pages s \<and> taken 0 s s')"
  using assms
proof (cases rule: write_pass_elim)
  case complete
  from put_bytes_frame [OF complete(1)] complete(2) show ?thesis
    by (simp add: same_input_def clear_and_activate_def Let_def set_PMCB_def)
next
  case (wpf s1)
  from put_bytes_frame [OF wpf(1)] wpf(2,3) show ?thesis
    by (simp add: same_input_def clear_and_activate_def Let_def set_PMCB_def
          PrintAndClearException_def get_PMCB_vmem_def)
next
  case (pf s1 bw)
  from put_bytes_frame [OF pf(1)] have
    1: "out s1 = out s" "same_input s s1" "allocated_pages s1 = allocated_pages s"
       "QUOTA s1 = QUOTA s" "free_frames s1 = free_frames s"
    by (simp_all add: same_input_def clear_and_activate_def Let_def set_PMCB_def)
  from on_page_fault_effect [OF pf(2)] 1 show ?thesis
    by (auto simp: taken_def intro: same_input_trans)
qed

lemma fill_pass_effect:
  assumes "fill_pass s addr bw start n val = Inr (s', addr', bw', p)"
  shows "same_input s s' \<and>
         (\<exists>new. out s' = out s @ new \<and> (p \<noteq> Leave \<longrightarrow> new = [])) \<and>
         (allocated_pages s \<noteq> QUOTA s \<and> allocated_pages s' = allocated_pages s + 1 \<and>
            (taken 1 s s' \<or> taken 2 s s') \<or>
          allocated_pages s' = allocated_pages s \<and> taken 0 s s')"
  using assms
proof (cases rule: fill_pass_elim)
  case complete
  from fill_for_same [OF complete(1)] show ?thesis
    by (simp add: same_proc_def same_input_def clear_and_activate_def Let_def set_PMCB_def)
next
  case (wpf s1)
  from fill_for_same [OF wpf(1)] wpf(2,3) show ?thesis
    by (simp add: same_proc_def same_input_def clear_and_activate_def Let_def set_PMCB_def
          PrintAndClearException_def get_PMCB_vmem_def)
next
  case (pf s1 bw1)
  from fill_for_same [OF pf(1)] have
    1: "out s1 = out s" "same_input s s1" "allocated_pages s1 = allocated_pages s"
       "QUOTA s1 = QUOTA s" "free_frames s1 = free_frames s"
    by (simp_all add: same_proc_def same_input_def clear_and_activate_def Let_def set_PMCB_def)
  from on_page_fault_effect [OF pf(2)] 1 show ?thesis
    by (auto simp: taken_def intro: same_input_trans split: if_splits)
qed

text \<open>\<open>counted s s'\<close>: between the two states the counter rose by some \<open>k\<close>, one for
  each of \<open>k\<close> pages mapped, and \<open>k\<close> to \<open>2 * k\<close> frames left the allocator; if the counter
  was within the quota it still is.\<close>
definition counted :: "state \<Rightarrow> state \<Rightarrow> bool" where
  "counted s s' \<longleftrightarrow>
     (\<exists>k j. taken j s s' \<and> k \<le> j \<and> j \<le> 2 * k \<and>
            allocated_pages s' = allocated_pages s + of_nat k \<and>
            (allocated_pages s \<le> QUOTA s \<longrightarrow>
               unat (allocated_pages s) + k \<le> unat (QUOTA s)))"

lemma counted_refl [simp]: "counted s s"
  unfolding counted_def by (rule exI [of _ 0], rule exI [of _ 0]) (simp add: word_le_nat_alt)

lemma counted_step:
  assumes c: "counted s s1" and q: "QUOTA s1 = QUOTA s"
    and a: "allocated_pages s1 \<noteq> QUOTA s1" "allocated_pages s' = allocated_pages s1 + 1"
    and t: "taken 1 s1 s' \<or> taken 2 s1 s'"
  shows "counted s s'"
proof -
  from c obtain k j where kj: "taken j s s1" "k \<le> j" "j \<le> 2 * k"
    "allocated_pages s1 = allocated_pages s + of_nat k"
    "allocated_pages s \<le> QUOTA s \<longrightarrow> unat (allocated_pages s) + k \<le> unat (QUOTA s)"
    unfolding counted_def by blast
  from t obtain d where d: "taken d s1 s'" "d = 1 \<or> d = 2" by auto
  have "unat (allocated_pages s) + Suc k \<le> unat (QUOTA s)" if le: "allocated_pages s \<le> QUOTA s"
  proof -
    from kj(5) le have b: "unat (allocated_pages s) + k \<le> unat (QUOTA s)" by simp
    have "unat (QUOTA s) < 2 ^ 32" using unsigned_less [of "QUOTA s", where 'a = nat] by simp
    with b have "unat (allocated_pages s) + k < 2 ^ 32" by simp
    then have "unat (allocated_pages s + of_nat k) = unat (allocated_pages s) + k"
      by (simp add: unat_word_ariths unat_of_nat take_bit_eq_mod)
    with kj(4) a(1) q b have "unat (allocated_pages s) + k \<noteq> unat (QUOTA s)"
      by (metis word_unat_eq_iff)
    with b show ?thesis by simp
  qed
  moreover have "taken (j + d) s s'" using taken_trans [OF kj(1) d(1)] .
  moreover have "Suc k \<le> j + d" "j + d \<le> 2 * Suc k" using kj(2,3) d(2) by auto
  moreover have "allocated_pages s' = allocated_pages s + of_nat (Suc k)"
    using a(2) kj(4) by simp
  ultimately show ?thesis unfolding counted_def by blast
qed

lemma counted_same:
  "counted s s1 \<Longrightarrow> allocated_pages s' = allocated_pages s1 \<Longrightarrow> taken 0 s1 s' \<Longrightarrow> counted s s'"
  by (auto simp: counted_def taken_def)

lemma counted_within_quota:
  assumes "counted s s'" "QUOTA s' = QUOTA s" "allocated_pages s \<le> QUOTA s"
  shows "allocated_pages s' \<le> QUOTA s'"
proof -
  from assms(1,3) obtain k where k: "allocated_pages s' = allocated_pages s + of_nat k"
    "unat (allocated_pages s) + k \<le> unat (QUOTA s)"
    unfolding counted_def by blast
  have "unat (QUOTA s) < 2 ^ 32" using unsigned_less [of "QUOTA s", where 'a = nat] by simp
  with k(2) have "unat (allocated_pages s) + k < 2 ^ 32" by simp
  then have "unat (allocated_pages s + of_nat k) = unat (allocated_pages s) + k"
    by (simp add: unat_word_ariths unat_of_nat take_bit_eq_mod)
  with k assms(2) show ?thesis by (simp add: word_le_nat_alt)
qed

definition loop_inv :: "state \<Rightarrow> state \<Rightarrow> bool" where
  "loop_inv s s1 \<longleftrightarrow> same_input s s1 \<and> out s1 = out s \<and> counted s s1"

lemma write_loop_effect:
  assumes "write_loop s addr c buf = Inr (s', ok)"
  shows "same_input s s' \<and> counted s s' \<and>
         (\<exists>new. out s' = out s @ new \<and> (\<not> ok \<longrightarrow> new = []))"
proof (rule write_loop_rule [OF assms, where I = "loop_inv s"], goal_cases)
  case 1
  show ?case by (simp add: loop_inv_def)
next
  case (2 s1 s2)
  from write_pass_effect [OF 2(2)] 2(1) show ?case
    by (auto simp: loop_inv_def same_input_def intro!: counted_step [of s s1 s2])
next
  case (3 s1 s2)
  from write_pass_effect [OF 3(2)] 3(1) show ?case
    by (auto simp: loop_inv_def same_input_def set_PMCB_def taken_def
             intro!: counted_same [of s s1])
next
  case (4 s1 s2)
  from write_pass_effect [OF 4(2)] 4(1) show ?case
    by (auto simp: loop_inv_def same_input_def intro!: counted_same [of s s1])
qed

lemma fill_loop_effect:
  assumes "fill_loop s addr bw start n val = Some (Inr (s', ok))"
  shows "same_input s s' \<and> counted s s' \<and>
         (\<exists>new. out s' = out s @ new \<and> (\<not> ok \<longrightarrow> new = []))"
proof (rule fill_loop_rule [OF assms, where I = "\<lambda>s1 a w. loop_inv s s1"], goal_cases)
  case 1
  show ?case by (simp add: loop_inv_def)
next
  case (2 s1 a1 w1 s2 a2 w2)
  from fill_pass_effect [OF 2(2)] 2(1) show ?case
    by (auto simp: loop_inv_def same_input_def
             intro: counted_step [of s s1 s2] counted_same [of s s1 s2])
next
  case (3 s1 a1 w1 s2 a2 w2)
  from fill_pass_effect [OF 3(2)] 3(1) show ?case
    by (auto simp: loop_inv_def same_input_def set_PMCB_def taken_def
             intro: counted_step [of s s1] counted_same [of s s1])
next
  case (4 s1 a1 w1 s2 a2 w2)
  from fill_pass_effect [OF 4(2)] 4(1) show ?case
    by (auto simp: loop_inv_def same_input_def
             intro: counted_step [of s s1 s2] counted_same [of s s1 s2])
qed

lemma counted_prefix:
  assumes "allocated_pages s1 = allocated_pages s" "QUOTA s1 = QUOTA s"
    "free_frames s1 = free_frames s" "counted s1 s'"
  shows "counted s s'"
  using assms by (simp add: counted_def taken_def)

lemma CmdPut_effect:
  assumes "CmdPut s args = Inr (s', ok)"
  shows "same_input s s' \<and> counted s s' \<and>
         (\<exists>new. out s' = out s @ new \<and> (\<not> ok \<longrightarrow> new = []))"
  using assms
  by (auto simp: CmdPut_def Let_def split: list.splits dest!: write_loop_effect)

lemma CmdFill_effect:
  assumes "CmdFill s args = Some (Inr (s', ok))"
  shows "same_input s s' \<and> counted s s' \<and>
         (\<exists>new. out s' = out s @ new \<and> (\<not> ok \<longrightarrow> new = []))"
  using assms
  by (auto simp: CmdFill_def split: list.splits dest!: fill_loop_effect)

definition wpf_report :: "event \<Rightarrow> bool" where
  "wpf_report e \<longleftrightarrow> (\<exists>l a. e = ExceptionReport ''WritePermissionFaultException'' l a)"

lemma CmdCopy_effect:
  assumes "CmdCopy s args = Inr (s', ok)"
  shows "same_input s s' \<and> counted s s' \<and>
         (\<exists>new. out s' = out s @ new \<and> (\<not> ok \<longrightarrow> (\<forall>e \<in> set new. \<not> wpf_report e)))"
proof -
  from assms obtain dst src n rest where args: "args = dst # src # n # rest"
    by (auto simp: CmdCopy_def split: list.splits)
  obtain s1 buf r where g: "get_bytes s src (unat n) = (s1, buf, r)"
    by (cases "get_bytes s src (unat n)")
  define s2 where "s2 = (case r of None \<Rightarrow> s1
                          | Some _ \<Rightarrow> PrintAndClearException s1 ''PageFaultException on read'')"
  define s3 where "s3 = get_PMCB_vmem s2"
  from assms args g have
    run: "write_loop s3 dst (unat (next_vaddress (vmem_pmcb s3) - src)) buf = Inr (s', ok)"
    by (auto simp: CmdCopy_def Let_def s2_def s3_def split: option.splits fault.splits)
  have pre: "same_input s s3" "allocated_pages s3 = allocated_pages s" "QUOTA s3 = QUOTA s"
    "free_frames s3 = free_frames s"
    "\<exists>pre. out s3 = out s @ pre \<and> (\<forall>e \<in> set pre. \<not> wpf_report e)"
    using get_bytes_frame [OF g]
    by (auto simp: s3_def s2_def same_input_def get_PMCB_vmem_def PrintAndClearException_def
          Let_def set_PMCB_def wpf_report_def split: option.splits)
  from write_loop_effect [OF run] obtain new where
    w: "same_input s3 s'" "counted s3 s'" "out s' = out s3 @ new" "\<not> ok \<longrightarrow> new = []"
    by blast
  from pre(5) obtain pre' where p: "out s3 = out s @ pre'" "\<forall>e \<in> set pre'. \<not> wpf_report e"
    by blast
  have "out s' = out s @ (pre' @ new) \<and> (\<not> ok \<longrightarrow> (\<forall>e \<in> set (pre' @ new). \<not> wpf_report e))"
    using w(3,4) p by auto
  then show ?thesis
    using same_input_trans [OF pre(1) w(1)] counted_prefix [OF pre(2,3,4) w(2)] by blast
qed

subsection \<open>The command loop\<close>





text \<open>The handler the command loop calls for the three commands that can fail on the
  quota.\<close>
definition write_command :: "string \<Rightarrow> state \<Rightarrow> 32 word list \<Rightarrow> (fatal + state \<times> bool) option" where
  "write_command cmd s args =
     (if cmd = ''put'' then Some (CmdPut s args)
      else if cmd = ''fill'' then CmdFill s args
      else Some (CmdCopy s args))"

lemma write_command_effect:
  assumes "write_command cmd s args = Some (Inr (s', ok))"
  shows "\<exists>new. out s' = out s @ new \<and> (\<not> ok \<longrightarrow> (\<forall>e \<in> set new. \<not> wpf_report e))"
  using assms CmdPut_effect [of s args s' ok] CmdFill_effect [of s args s' ok]
    CmdCopy_effect [of s args s' ok]
  by (fastforce simp: write_command_def split: if_splits)


lemma ProcessTrace_effect:
  assumes "ProcessTrace m frames file pid q = Inr s'"
  shows "allocated_pages s' = 0 \<and> frames = page_table_base (vmem_pmcb s') # free_frames s'"
  using assms
  by (auto simp: ProcessTrace_def Allocate1_def Let_def set_PMCB_def mk_PMCB_def
           split: option.splits list.splits)

definition zero_memory :: "Addr \<Rightarrow> byte" where
  "zero_memory = (\<lambda>_. 0)"

definition counters :: "state \<Rightarrow> 32 word \<times> 32 word \<times> Addr list" where
  "counters s = (allocated_pages s, QUOTA s, free_frames s)"

lemma put_fresh5:
  "map_sum id (apfst counters) (CmdPut (fresh\<lparr>QUOTA := 5\<rparr>) [0xFFF, 1, 2]) =
     Inr ((2, 5, [0x5000]), True)"
  apply (simp add: CmdPut_def fresh_def)
  apply (subst write_loop.simps, simp add: cmd_eval)
  apply (subst write_loop.simps, simp add: cmd_eval)
  apply (subst write_loop.simps, simp add: cmd_eval counters_def)
  done

text \<open>
  Claim C2 as stated fails: every allocation of a frame would raise the counter, the
  root and the second-level tables included. Creating the process takes frame \<open>0x1000\<close>
  and the counter is 0; the put then maps two pages and takes three frames (a table
  and two pages), and the counter is 2.
\<close>

theorem page_table_frames_not_counted:
  "ProcessTrace zero_memory [0x1000, 0x2000, 0x3000, 0x4000, 0x5000] (Some []) 1 0 = Inr fresh \<and>
   counters fresh = (0, 0, [0x2000, 0x3000, 0x4000, 0x5000]) \<and>
   map_sum id (apfst counters) (CmdPut (fresh\<lparr>QUOTA := 5\<rparr>) [0xFFF, 1, 2]) =
     Inr ((2, 5, [0x5000]), True)"
  using ProcessTrace_fresh put_fresh5
  by (simp add: zero_memory_def counters_def fresh_def)

lemmas exec_eval = Execute_body_def parse_eval CmdQuota_def CmdPut_def

text \<open>A process whose page 0 is mapped read-only: the first-level entry 0 names the
  table at \<open>0x2000\<close>, whose entry 0 names the frame \<open>0x3000\<close>, present and not writable.\<close>
definition read_only :: state where
  "read_only = fresh\<lparr>phys := zero_memory(0x1000 := 3, 0x1001 := 0x20, 0x2000 := 1, 0x2001 := 0x30),
                    free_frames := [0x4000, 0x5000]\<rparr>"

text \<open>The trace of the failing input of claim C4.\<close>
definition quota_lowered :: state where
  "quota_lowered =
     fresh\<lparr>trace := [''quota 2'', ''put 0 1'', ''put 1000 1'', ''quota 1'', ''put 2000 1'']\<rparr>"

definition report :: "state \<Rightarrow> 32 word \<times> 32 word \<times> event list" where
  "report s = (allocated_pages s, QUOTA s, out s)"

text \<open>
  Claim C4 says that once the quota is set below the number of pages allocated, every
  later allocation fails on the quota. The handlers test \<^verbatim>\<open>allocated_pages == QUOTA\<close>:
  with two pages allocated and the quota lowered to 1, the third put allocates a third
  page, nothing is reported and all five lines are executed.
\<close>

theorem quota_below_count_still_allocates:
  "map_option (map_sum id (apfst report)) (Execute quota_lowered 5) =
     Some (Inr ((3, 1, [EchoLine 1 1 ''quota 2'', EchoLine 2 1 ''put 0 1'',
                        EchoLine 3 1 ''put 1000 1'', EchoLine 4 1 ''quota 1'',
                        EchoLine 5 1 ''put 2000 1'']), 5))"
  apply (simp add: Execute_def quota_lowered_def fresh_def set_PMCB_def mk_PMCB_def)
  apply (subst Execute_loop.simps, simp add: exec_eval)
  apply (subst Execute_loop.simps, simp add: exec_eval)
  apply (subst write_loop.simps, simp add: cmd_eval)
  apply (subst write_loop.simps, simp add: cmd_eval)
  apply (subst Execute_loop.simps, simp add: exec_eval)
  apply (subst write_loop.simps, simp add: cmd_eval)
  apply (subst write_loop.simps, simp add: cmd_eval)
  apply (subst Execute_loop.simps, simp add: exec_eval)
  apply (subst Execute_loop.simps, simp add: exec_eval)
  apply (subst write_loop.simps, simp add: cmd_eval)
  apply (subst write_loop.simps, simp add: cmd_eval)
  apply (subst Execute_loop.simps, simp add: exec_eval get_PMCB_vmem_def report_def)
  done

subsection \<open>What a read in virtual mode returns\<close>

text \<open>The byte a read of virtual address \<open>a\<close> yields in state \<open>s\<close>, if the page is mapped.\<close>
definition vread :: "state \<Rightarrow> Addr \<Rightarrow> byte option" where
  "vread s a =
     (case translate (phys s) (page_table_base (mmu_pmcb s)) False a of
        Inl f \<Rightarrow> None
      | Inr pa \<Rightarrow> Some (phys s pa))"

lemma translate_read_fault: "translate m r False a = Inl f \<Longrightarrow> f = PageFaultException"
  by (auto simp: translate_def Let_def split: if_splits)

lemma read_virtual_None:
  "read_virtual m r a n = (bs, a', None) \<Longrightarrow>
     a' = a + of_nat n \<and> length bs = n \<and>
     (\<forall>j<n. \<exists>pa. translate m r False (a + of_nat j) = Inr pa \<and> bs ! j = m pa)"
proof (induction n arbitrary: a bs)
  case 0
  then show ?case by simp
next
  case (Suc n)
  from Suc.prems obtain pa where t: "translate m r False a = Inr pa"
    by (auto split: sum.splits)
  with Suc.prems obtain bs1 where r: "read_virtual m r (a + 1) n = (bs1, a', None)"
    and bs: "bs = m pa # bs1"
    by (auto split: prod.splits)
  from Suc.IH [OF r] have ih: "a' = a + 1 + of_nat n" "length bs1 = n"
    "\<forall>j<n. \<exists>pa. translate m r False (a + 1 + of_nat j) = Inr pa \<and> bs1 ! j = m pa"
    by auto
  have "\<exists>pa. translate m r False (a + of_nat j) = Inr pa \<and> bs ! j = m pa" if "j < Suc n" for j
  proof (cases j)
    case 0
    with t bs show ?thesis by simp
  next
    case (Suc j')
    with that ih(3) bs show ?thesis by (simp add: add.assoc)
  qed
  with ih(1,2) bs show ?case by (simp add: add.assoc)
qed

lemma read_virtual_Some:
  "read_virtual m r a n = (bs, a', Some f) \<Longrightarrow>
     length bs < n \<and> a' = a + of_nat (length bs) \<and> translate m r False a' = Inl f \<and>
     (\<forall>j<length bs. \<exists>pa. translate m r False (a + of_nat j) = Inr pa \<and> bs ! j = m pa)"
proof (induction n arbitrary: a bs)
  case 0
  then show ?case by simp
next
  case (Suc n)
  show ?case
  proof (cases "translate m r False a")
    case (Inl f')
    with Suc.prems show ?thesis by simp
  next
    case (Inr pa)
    with Suc.prems obtain bs1 where r: "read_virtual m r (a + 1) n = (bs1, a', Some f)"
      and bs: "bs = m pa # bs1"
      by (auto split: prod.splits)
    from Suc.IH [OF r] have ih: "length bs1 < n" "a' = a + 1 + of_nat (length bs1)"
      "translate m r False a' = Inl f"
      "\<forall>j<length bs1. \<exists>pa. translate m r False (a + 1 + of_nat j) = Inr pa \<and> bs1 ! j = m pa"
      by auto
    have "\<exists>pa. translate m r False (a + of_nat j) = Inr pa \<and> bs ! j = m pa"
      if "j < length bs" for j
    proof (cases j)
      case 0
      with Inr bs show ?thesis by simp
    next
      case (Suc j')
      with that ih(4) bs show ?thesis by (simp add: add.assoc)
    qed
    with ih(1,2,3) bs show ?thesis by (simp add: add.assoc)
  qed
qed

lemma compare_loop_index:
  "length bs = length es \<Longrightarrow>
     compare_loop a bs es =
       concat (map (\<lambda>i. if ucast (bs ! i) \<noteq> es ! i
                         then [CompareError (a + of_nat i) (es ! i) (ucast (bs ! i))] else [])
                   [0..<length es])"
proof (induction es arbitrary: bs a)
  case Nil
  then show ?case by simp
next
  case (Cons e es)
  then obtain b bs1 where bs: "bs = b # bs1" "length bs1 = length es" by (cases bs) auto
  have "[0..<Suc (length es)] = 0 # [Suc 0..<Suc (length es)]"
    by (rule upt_conv_Cons) simp
  then have u: "[0..<length (e # es)] = 0 # map Suc [0..<length es]"
    by (simp only: map_Suc_upt length_Cons)
  show ?case
    unfolding u bs(1)
    by (simp add: Cons.IH [OF bs(2)] comp_def ac_simps del: upt_Suc cong: if_cong)
qed

text \<open>The mismatches between the bytes at \<open>addr\<close> onwards and the expected values, in
  address order: address, expected, actual.\<close>
definition mismatches :: "state \<Rightarrow> Addr \<Rightarrow> 32 word list \<Rightarrow> event list" where
  "mismatches s addr expected =
     concat (map (\<lambda>i. case vread s (addr + of_nat i) of
                         None \<Rightarrow> []
                       | Some b \<Rightarrow> if ucast b \<noteq> expected ! i
                                   then [CompareError (addr + of_nat i) (expected ! i) (ucast b)]
                                   else [])
                 [0..<length expected])"

text \<open>
  Claim C5, as amended. A compare served in virtual mode changes no memory. When the
  whole range is mapped it reports every byte that differs from its expected value,
  with address, expected and actual value, in address order and without stopping at a
  mismatch. When the range includes an unmapped page it reports the page fault at the
  first unmapped address and nothing else: the bytes of the mapped prefix are read but
  none of them is compared.
\<close>

theorem compare_reports_fault_or_all_mismatches:
  assumes vm: "vm_enable (mmu_pmcb s)"
    and run: "CmdCompare s (addr # expected) = Inr s'"
  shows "phys s' = phys s \<and>
         ((\<forall>i<length expected. vread s (addr + of_nat i) \<noteq> None) \<longrightarrow>
            out s' = out s @ mismatches s addr expected) \<and>
         (\<forall>i<length expected. vread s (addr + of_nat i) = None \<longrightarrow>
            (\<forall>j<i. vread s (addr + of_nat j) \<noteq> None) \<longrightarrow>
            out s' = out s @ [ExceptionReport ''PageFaultException'' (line_number s)
                                (addr + of_nat i)])"
proof -
  let ?m = "phys s" and ?r = "page_table_base (mmu_pmcb s)" and ?n = "length expected"
  obtain bs a' r where rv: "read_virtual ?m ?r addr ?n = (bs, a', r)"
    by (cases "read_virtual ?m ?r addr ?n")
  define s1 where "s1 = s\<lparr>mmu_pmcb := mark (mmu_pmcb s) READ_OP a' r,
                accesses := accesses s @ [Access True READ_OP addr ?n bs r]\<rparr>"
  have g: "get_bytes s addr ?n = (s1, bs, r)"
    using vm rv by (simp add: get_bytes_def s1_def)
  show ?thesis
  proof (cases r)
    case None
    from read_virtual_None [OF rv [unfolded None]] have
      all: "length bs = ?n"
        "\<forall>j<?n. \<exists>pa. translate ?m ?r False (addr + of_nat j) = Inr pa \<and> bs ! j = ?m pa"
      by auto
    from run g None have s': "s' = s1\<lparr>out := out s1 @ compare_loop addr bs expected\<rparr>"
      by (simp add: CmdCompare_def)
    have v: "vread s (addr + of_nat j) = Some (bs ! j)" if "j < ?n" for j
      using all(2) that by (auto simp: vread_def)
    have "compare_loop addr bs expected = mismatches s addr expected"
      unfolding compare_loop_index [OF all(1)] mismatches_def
      by (rule arg_cong [where f = concat], rule map_cong) (auto simp: v)
    with s' have o: "out s' = out s @ mismatches s addr expected" and p: "phys s' = phys s"
      by (simp_all add: s1_def)
    have "\<not> (i < ?n \<and> vread s (addr + of_nat i) = None)" for i
      using v [of i] by auto
    with o p show ?thesis by blast
  next
    case (Some f)
    from read_virtual_Some [OF rv [unfolded Some]] have
      pre: "length bs < ?n" "a' = addr + of_nat (length bs)" "translate ?m ?r False a' = Inl f"
        "\<forall>j<length bs. \<exists>pa. translate ?m ?r False (addr + of_nat j) = Inr pa \<and> bs ! j = ?m pa"
      by auto
    from translate_read_fault [OF pre(3)] have f: "f = PageFaultException" .
    from run g Some f have s': "s' = PrintAndClearException s1 ''PageFaultException''"
      by (simp add: CmdCompare_def)
    have o: "out s' = out s @ [ExceptionReport ''PageFaultException'' (line_number s) a']"
      and p: "phys s' = phys s"
      by (simp_all add: s' s1_def PrintAndClearException_def Let_def get_PMCB_vmem_def
            set_PMCB_def mark_def)
    have un: "vread s (addr + of_nat (length bs)) = None"
      using pre(2,3) by (simp add: vread_def)
    have ma: "vread s (addr + of_nat j) \<noteq> None" if "j < length bs" for j
      using pre(4) that by (auto simp: vread_def)
    have first: "i = length bs"
      if "i < ?n" "vread s (addr + of_nat i) = None" "\<forall>j<i. vread s (addr + of_nat j) \<noteq> None"
      for i
      using that un ma by (meson linorder_neqE_nat)
    have "\<not> (\<forall>i<?n. vread s (addr + of_nat i) \<noteq> None)"
      using un pre(1) by blast
    moreover have "out s' = out s @ [ExceptionReport ''PageFaultException'' (line_number s)
                                (addr + of_nat i)]"
      if "i < ?n" "vread s (addr + of_nat i) = None" "\<forall>j<i. vread s (addr + of_nat j) \<noteq> None"
      for i
      using first [OF that] o pre(2) by simp
    ultimately show ?thesis using p by blast
  qed
qed

lemma vread_read_only:
  "vread read_only 0xFFE = Some 0" "vread read_only 0xFFF = Some 0"
  "vread read_only 0x1000 = None"
  by (simp_all add: vread_def read_only_def fresh_def zero_memory_def mmu_eval)

lemma compare_read_only_fault:
  "map_sum id out (CmdCompare read_only [0xFFF, 1, 1]) =
     Inr [ExceptionReport ''PageFaultException'' 0 0x1000]"
  by (simp add: CmdCompare_def read_only_def fresh_def zero_memory_def cmd_eval nat_numeral_eval)

text \<open>
  Claim C5 as stated fails: the bytes read before the fault would be compared. Page 0
  is mapped and holds zeros, page 1 is unmapped; comparing the two bytes at \<open>0xFFF\<close>
  with 1 and 1 reports the page fault at \<open>0x1000\<close> and no mismatch for \<open>0xFFF\<close>.
\<close>

theorem compare_skips_mapped_prefix_on_fault:
  "vread read_only 0xFFF = Some 0 \<and> vread read_only 0x1000 = None \<and>
   map_sum id out (CmdCompare read_only [0xFFF, 1, 1]) =
     Inr [ExceptionReport ''PageFaultException'' 0 0x1000]"
  using vread_read_only compare_read_only_fault by simp

text \<open>Claim C5, witness: the same compare, and one whose range is mapped.\<close>

theorem compare_reports_fault_or_all_mismatches_witness:
  "vm_enable (mmu_pmcb read_only) \<and>
   (\<exists>s'. CmdCompare read_only [0xFFF, 1, 1] = Inr s' \<and>
         out s' = [ExceptionReport ''PageFaultException'' 0 0x1000]) \<and>
   (\<exists>s'. CmdCompare read_only [0xFFE, 1, 0] = Inr s' \<and>
         out s' = [CompareError 0xFFE 1 0])"
proof -
  have vm: "vm_enable (mmu_pmcb read_only)"
    by (simp add: read_only_def fresh_def mk_PMCB_def)
  have o: "out read_only = []" "line_number read_only = 0"
    by (simp_all add: read_only_def fresh_def)
  from compare_read_only_fault obtain s1 where
    r1: "CmdCompare read_only (0xFFF # [1, 1]) = Inr s1"
    by (cases "CmdCompare read_only [0xFFF, 1, 1]") auto
  from compare_reports_fault_or_all_mismatches [OF vm r1] vread_read_only
  have "out s1 = out read_only @
          [ExceptionReport ''PageFaultException'' (line_number read_only) (0xFFF + of_nat 1)]"
    by (auto simp: less_Suc_eq numeral_2_eq_2)
  with o have 1: "out s1 = [ExceptionReport ''PageFaultException'' 0 0x1000]" by simp
  have "\<exists>s'. CmdCompare read_only [0xFFE, 1, 0] = Inr s'"
    by (simp add: CmdCompare_def read_only_def fresh_def zero_memory_def cmd_eval
          nat_numeral_eval)
  then obtain s2 where r2: "CmdCompare read_only (0xFFE # [1, 0]) = Inr s2" by auto
  have all: "\<forall>i<length [1, 0 :: 32 word]. vread read_only (0xFFE + of_nat i) \<noteq> None"
    using vread_read_only by (auto simp: less_Suc_eq numeral_2_eq_2)
  from compare_reports_fault_or_all_mismatches [OF vm r2] all
  have "out s2 = out read_only @ mismatches read_only 0xFFE [1, 0]" by blast
  also have "mismatches read_only 0xFFE [1, 0] = [CompareError 0xFFE 1 0]"
    using vread_read_only by (simp add: mismatches_def upt_rec [of 0] upt_rec [of 1])
  finally have 2: "out s2 = [CompareError 0xFFE 1 0]" using o by simp
  from vm r1 1 r2 2 show ?thesis by auto
qed

subsection \<open>The requests a command issues to the MMU\<close>

fun is_virtual :: "access \<Rightarrow> bool" where
  "is_virtual (Access v k a n d r) = v"

text \<open>The requests served through the page table, in the order they were issued.\<close>
definition virtual_requests :: "access list \<Rightarrow> access list" where
  "virtual_requests xs = filter is_virtual xs"

lemma virtual_requests_simps [simp]:
  "virtual_requests [] = []"
  "virtual_requests (Access v k a n d r # xs) =
     (if v then Access v k a n d r # virtual_requests xs else virtual_requests xs)"
  "virtual_requests (xs @ ys) = virtual_requests xs @ virtual_requests ys"
  by (simp_all add: virtual_requests_def)

lemma put_bytes_log:
  "put_bytes s a bs = (s', r) \<Longrightarrow>
     accesses s' = accesses s @ [Access (vm_enable (mmu_pmcb s)) WRITE_OP a (length bs) bs r]"
  by (auto simp: put_bytes_def split: if_splits prod.splits)

lemma get_bytes_log:
  "get_bytes s a n = (s', bs, r) \<Longrightarrow>
     accesses s' = accesses s @ [Access (vm_enable (mmu_pmcb s)) READ_OP a n bs r]"
  by (auto simp: get_bytes_def split: if_splits prod.splits)

lemma AllocateAndMapPage_log:
  assumes "\<not> vm_enable (mmu_pmcb s)" "AllocateAndMapPage s v = Inr s'"
  shows "\<exists>xs. accesses s' = accesses s @ xs \<and> virtual_requests xs = []"
proof -
  let ?a1 = "page_table_base (vmem_pmcb s) +
             sizeof_PTE * drop_bit (kPageSizeBits + kPageTableSizeBits) v"
  from assms(2) obtain s1 l1 where e: "ensure_L1 s ?a1 = Inr (s1, l1)"
    by (auto simp: AllocateAndMapPage_def Let_def split: sum.splits)
  from e assms(1) have 1: "\<not> vm_enable (mmu_pmcb s1)"
    "\<exists>xs. accesses s1 = accesses s @ xs \<and> virtual_requests xs = []"
    by (auto simp: ensure_L1_def read_PTE_phys write_PTE_phys Allocate1_def Let_def
             split: if_splits list.splits)
  let ?a2 = "(l1 AND kPageNumberMask) +
             sizeof_PTE * (drop_bit kPageSizeBits v AND kPageTableIndexMask)"
  from assms(2) e 1(1) have "\<exists>xs. accesses s' = accesses s1 @ xs \<and> virtual_requests xs = []"
    by (auto simp: AllocateAndMapPage_def read_PTE_phys write_PTE_phys Allocate1_def Let_def
             split: if_splits list.splits)
  with 1(2) show ?thesis by auto
qed

lemma on_page_fault_log:
  assumes "on_page_fault s start wanted = Inr (s', bw, p)"
  shows "\<exists>xs. accesses s' = accesses s @ xs \<and> virtual_requests xs = []"
  using assms
proof (cases rule: on_page_fault_elim)
  case (again s2)
  have "\<not> vm_enable (mmu_pmcb (set_PMCB (get_PMCB_vmem s) pmem_pmcb))"
    by (simp add: set_PMCB_def pmem_pmcb_def mk_PMCB_def)
  from AllocateAndMapPage_log [OF this again(3)] again(4) show ?thesis
    by (simp add: set_PMCB_def get_PMCB_vmem_def)
qed (simp_all add: get_PMCB_vmem_def)

lemma write_pass_log:
  assumes "write_pass s addr c buf = Inr (s', p)" "vm_enable (vmem_pmcb s)"
  shows "\<exists>r xs. accesses s' = accesses s @
                  Access True WRITE_OP addr (length (take c buf)) (take c buf) r # xs \<and>
           virtual_requests xs = [] \<and> (p = Again \<longrightarrow> r = Some PageFaultException)"
proof -
  have vm: "vm_enable (mmu_pmcb (clear_and_activate s))"
    "accesses (clear_and_activate s) = accesses s"
    using assms(2) by (simp_all add: clear_and_activate_def Let_def set_PMCB_def)
  from assms(1) show ?thesis
  proof (cases rule: write_pass_elim)
    case complete
    from put_bytes_log [OF complete(1)] vm complete(2) show ?thesis by simp
  next
    case (wpf s1)
    from put_bytes_log [OF wpf(1)] vm wpf(2,3) show ?thesis
      by (simp add: PrintAndClearException_def Let_def set_PMCB_def get_PMCB_vmem_def)
  next
    case (pf s1 bw)
    from put_bytes_log [OF pf(1)] vm on_page_fault_log [OF pf(2)] show ?thesis by auto
  qed
qed

lemma vm_enable_vmem_write_pass:
  "write_pass s addr c buf = Inr (s', p) \<Longrightarrow> vm_enable (vmem_pmcb s) \<Longrightarrow>
     vm_enable (vmem_pmcb s')"
  using write_pass_virtual [of s addr c buf s' p "page_table_base (vmem_pmcb s)"]
  by (simp add: vmem_virtual_def)

text \<open>\<open>restarts addr data xs\<close>: the requests \<open>xs\<close> are one or more writes of the whole of
  \<open>data\<close> at \<open>addr\<close>, and each but the last ended in a page fault.\<close>
definition restarts :: "Addr \<Rightarrow> byte list \<Rightarrow> access list \<Rightarrow> bool" where
  "restarts addr data xs \<longleftrightarrow>
     (\<exists>k r. xs = replicate k (Access True WRITE_OP addr (length data) data
                                (Some PageFaultException)) @
                 [Access True WRITE_OP addr (length data) data r])"

lemma write_loop_log:
  assumes "write_loop s addr c buf = Inr (s', ok)" "vm_enable (vmem_pmcb s)"
  shows "\<exists>new. accesses s' = accesses s @ new \<and>
           restarts addr (take c buf) (virtual_requests new)"
proof -
  let ?A = "Access True WRITE_OP addr (length (take c buf)) (take c buf)"
  define I where "I = (\<lambda>s1 :: state. vm_enable (vmem_pmcb s1) \<and>
     (\<exists>new k. accesses s1 = accesses s @ new \<and>
        virtual_requests new = replicate k (?A (Some PageFaultException))))"
  define Q where "Q = (\<lambda>(s1 :: state) (ok :: bool). \<exists>new. accesses s1 = accesses s @ new \<and>
           restarts addr (take c buf) (virtual_requests new))"
  have fin: "Q s2 b" if "I s1" "write_pass s1 addr c buf = Inr (s2', p)"
    "accesses s2 = accesses s2'" for s1 s2 s2' p b
  proof -
    from that(1) obtain new k where n: "accesses s1 = accesses s @ new"
      "virtual_requests new = replicate k (?A (Some PageFaultException))"
      and vm: "vm_enable (vmem_pmcb s1)"
      unfolding I_def by blast
    from write_pass_log [OF that(2) vm] obtain r xs where
      x: "accesses s2' = accesses s1 @ ?A r # xs" "virtual_requests xs = []" by blast
    have "virtual_requests (new @ ?A r # xs) =
            replicate k (?A (Some PageFaultException)) @ [?A r]"
      using n(2) x(2) by simp
    then have "restarts addr (take c buf) (virtual_requests (new @ ?A r # xs))"
      unfolding restarts_def by blast
    with n(1) x(1) that(3) show ?thesis unfolding Q_def by simp
  qed
  have "Q s' ok"
  proof (rule write_loop_rule [OF assms(1), where I = I], goal_cases)
    case 1
    show ?case unfolding I_def using assms(2) by (auto intro: exI [of _ 0])
  next
    case (2 s1 s2)
    from 2(1) obtain new k where n: "accesses s1 = accesses s @ new"
      "virtual_requests new = replicate k (?A (Some PageFaultException))"
      and vm: "vm_enable (vmem_pmcb s1)"
      unfolding I_def by blast
    from write_pass_log [OF 2(2) vm] obtain xs where
      x: "accesses s2 = accesses s1 @ ?A (Some PageFaultException) # xs"
         "virtual_requests xs = []" by auto
    have v: "virtual_requests (new @ ?A (Some PageFaultException) # xs) =
            replicate (Suc k) (?A (Some PageFaultException))"
      using n(2) x(2) by (simp add: replicate_append_same)
    have a: "accesses s2 = accesses s @ (new @ ?A (Some PageFaultException) # xs)"
      using n(1) x(1) by simp
    from a v vm_enable_vmem_write_pass [OF 2(2) vm] show ?case
      unfolding I_def by blast
  next
    case (3 s1 s2)
    show ?case by (rule fin [OF 3]) (simp add: set_PMCB_def)
  next
    case (4 s1 s2)
    show ?case by (rule fin [OF 4]) simp
  qed
  then show ?thesis by (simp add: Q_def)
qed

text \<open>\<open>resumes val a xs\<close>: the requests \<open>xs\<close> are writes of the one byte \<open>val\<close>, the first at
  \<open>a\<close>, each of the others at the address after the last byte written so far: a request
  that faulted is followed by one at the same address, a request that wrote its byte by
  one at the next address.\<close>
fun resumes :: "byte \<Rightarrow> Addr \<Rightarrow> access list \<Rightarrow> bool" where
  "resumes val a [] = True"
| "resumes val a (Access v k b n d r # xs) =
     (k = WRITE_OP \<and> b = a \<and> n = 1 \<and> d = [val] \<and>
      resumes val (if r = None then a + 1 else a) xs)"

text \<open>The first unwritten byte after the requests \<open>xs\<close>.\<close>
fun resume_end :: "Addr \<Rightarrow> access list \<Rightarrow> Addr" where
  "resume_end a [] = a"
| "resume_end a (Access v k b n d r # xs) = resume_end (if r = None then a + 1 else a) xs"

lemma resumes_append:
  "resumes val a (xs @ ys) \<longleftrightarrow> resumes val a xs \<and> resumes val (resume_end a xs) ys"
  by (induction val a xs rule: resumes.induct) auto

lemma resume_end_append: "resume_end a (xs @ ys) = resume_end (resume_end a xs) ys"
  by (induction a xs rule: resume_end.induct) auto

lemma fill_for_log:
  "fill_for s addr bw n val = (s1, addr1, bw1, r) \<Longrightarrow> vm_enable (mmu_pmcb s) \<Longrightarrow>
     \<exists>xs. accesses s1 = accesses s @ xs \<and> virtual_requests xs = xs \<and>
          resumes val addr xs \<and> resume_end addr xs = addr1"
proof (induction s addr bw n val rule: fill_for.induct)
  case (1 s addr bw n val)
  show ?case
  proof (cases "bw < n")
    case False
    with "1.prems"(1) show ?thesis by (simp add: fill_for.simps)
  next
    case True
    obtain s2 r2 where p: "put_byte s addr val = (s2, r2)" by (cases "put_byte s addr val")
    then have pb: "put_bytes s addr [val] = (s2, r2)" by (simp add: put_byte_def)
    from put_bytes_log [OF pb] "1.prems"(2)
    have l: "accesses s2 = accesses s @ [Access True WRITE_OP addr 1 [val] r2]" by simp
    have vm2: "vm_enable (mmu_pmcb s2)" using put_bytes_frame [OF pb] "1.prems"(2) by simp
    show ?thesis
    proof (cases r2)
      case (Some f)
      with True p "1.prems"(1) have "s1 = s2" "addr1 = addr"
        by (simp_all add: fill_for.simps [of s])
      with l Some show ?thesis by simp
    next
      case None
      with True p "1.prems"(1) have "fill_for s2 (addr + 1) (bw + 1) n val = (s1, addr1, bw1, r)"
        by (simp add: fill_for.simps [of s])
      from "1.IH" [OF True p [symmetric] None this vm2] obtain xs where
        "accesses s1 = accesses s2 @ xs" "virtual_requests xs = xs"
        "resumes val (addr + 1) xs" "resume_end (addr + 1) xs = addr1" by blast
      with l None show ?thesis
        by (intro exI [of _ "Access True WRITE_OP addr 1 [val] None # xs"]) simp
    qed
  qed
qed

lemma fill_pass_log:
  assumes "fill_pass s addr bw start n val = Inr (s', addr', bw', p)" "vm_enable (vmem_pmcb s)"
  shows "\<exists>xs. accesses s' = accesses s @ xs \<and> resumes val addr (virtual_requests xs) \<and>
              resume_end addr (virtual_requests xs) = addr'"
proof -
  have vm: "vm_enable (mmu_pmcb (clear_and_activate s))"
    "accesses (clear_and_activate s) = accesses s"
    using assms(2) by (simp_all add: clear_and_activate_def Let_def set_PMCB_def)
  from assms(1) show ?thesis
  proof (cases rule: fill_pass_elim)
    case complete
    from fill_for_log [OF complete(1) vm(1)] vm(2) show ?thesis by auto
  next
    case (wpf s1)
    from fill_for_log [OF wpf(1) vm(1)] vm(2) wpf(2) show ?thesis
      by (auto simp: PrintAndClearException_def Let_def set_PMCB_def get_PMCB_vmem_def)
  next
    case (pf s1 bw1)
    from fill_for_log [OF pf(1) vm(1)] vm(2) obtain xs where
      x: "accesses s1 = accesses s @ xs" "virtual_requests xs = xs" "resumes val addr xs"
         "resume_end addr xs = addr'" by auto
    from on_page_fault_log [OF pf(2)] obtain ys where
      y: "accesses s' = accesses s1 @ ys" "virtual_requests ys = []" by blast
    from x y show ?thesis by (intro exI [of _ "xs @ ys"]) simp
  qed
qed

lemma vm_enable_vmem_fill_pass:
  "fill_pass s addr bw start n val = Inr (s', addr', bw', p) \<Longrightarrow> vm_enable (vmem_pmcb s) \<Longrightarrow>
     vm_enable (vmem_pmcb s')"
  using fill_pass_virtual [of s addr bw start n val s' addr' bw' p "page_table_base (vmem_pmcb s)"]
  by (simp add: vmem_virtual_def)

lemma fill_loop_log:
  assumes "fill_loop s addr bw start n val = Some (Inr (s', ok))" "vm_enable (vmem_pmcb s)"
  shows "\<exists>new. accesses s' = accesses s @ new \<and> resumes val addr (virtual_requests new)"
proof -
  define I where "I = (\<lambda>(s1 :: state) (a :: Addr) (w :: Addr). vm_enable (vmem_pmcb s1) \<and>
     (\<exists>new. accesses s1 = accesses s @ new \<and> resumes val addr (virtual_requests new) \<and>
            resume_end addr (virtual_requests new) = a))"
  define Q where "Q = (\<lambda>(s1 :: state) (ok :: bool). \<exists>new. accesses s1 = accesses s @ new \<and>
           resumes val addr (virtual_requests new))"
  have step: "vm_enable (vmem_pmcb s2) \<and>
     (\<exists>new. accesses s2 = accesses s @ new \<and> resumes val addr (virtual_requests new) \<and>
            resume_end addr (virtual_requests new) = a2)"
    if "I s1 a1 w1" "fill_pass s1 a1 w1 start n val = Inr (s2, a2, w2, p)" for s1 a1 w1 s2 a2 w2 p
  proof -
    from that(1) obtain new where n: "accesses s1 = accesses s @ new"
      "resumes val addr (virtual_requests new)" "resume_end addr (virtual_requests new) = a1"
      and vm: "vm_enable (vmem_pmcb s1)"
      unfolding I_def by blast
    from fill_pass_log [OF that(2) vm] obtain xs where
      x: "accesses s2 = accesses s1 @ xs" "resumes val a1 (virtual_requests xs)"
         "resume_end a1 (virtual_requests xs) = a2" by blast
    have "accesses s2 = accesses s @ (new @ xs)" using n(1) x(1) by simp
    moreover have "resumes val addr (virtual_requests (new @ xs))"
      using n(2,3) x(2) by (simp add: resumes_append)
    moreover have "resume_end addr (virtual_requests (new @ xs)) = a2"
      using n(3) x(3) by (simp add: resume_end_append)
    ultimately show ?thesis using vm_enable_vmem_fill_pass [OF that(2) vm] by blast
  qed
  have "Q s' ok"
  proof (rule fill_loop_rule [OF assms(1), where I = I], goal_cases)
    case 1
    show ?case unfolding I_def using assms(2) by (auto intro: exI [of _ "[]"])
  next
    case (2 s1 a1 w1 s2 a2 w2)
    from step [OF 2] show ?case unfolding I_def .
  next
    case (3 s1 a1 w1 s2 a2 w2)
    from step [OF 3] show ?case unfolding Q_def by (auto simp: set_PMCB_def)
  next
    case (4 s1 a1 w1 s2 a2 w2)
    from step [OF 4] show ?case unfolding Q_def by auto
  qed
  then show ?thesis by (simp add: Q_def)
qed


lemma get_bytes_marker:
  assumes "get_bytes s a n = (s1, bs, r)" "vm_enable (mmu_pmcb s)" "n < 2 ^ 32"
  shows "unat (next_vaddress (mmu_pmcb s1) - a) = length bs"
proof -
  let ?m = "phys s" and ?b = "page_table_base (mmu_pmcb s)"
  obtain a' where rv: "read_virtual ?m ?b a n = (bs, a', r)"
    and nv: "next_vaddress (mmu_pmcb s1) = a'"
    using assms(1,2)
    by (cases "read_virtual ?m ?b a n") (auto simp: get_bytes_def mark_def)
  have "a' = a + of_nat (length bs) \<and> length bs \<le> n"
  proof (cases r)
    case None
    with read_virtual_None [of ?m ?b a n bs a'] rv show ?thesis by simp
  next
    case (Some f)
    with read_virtual_Some [of ?m ?b a n bs a' f] rv show ?thesis by simp
  qed
  with nv assms(3) show ?thesis by (simp add: unat_of_nat take_bit_nat_eq_self)
qed

text \<open>
  Claim C1, as amended. In a fill every request is a write of the one byte \<open>val\<close>, and
  every one of them, the retried ones included, is issued at the first unwritten byte:
  after a page fault and its recovery the write is retried at the faulting address. In
  a put every request is the whole write again: at the original starting address, with
  the full byte count and the same bytes, the arguments of the command; all requests
  but the last ended in a page fault. In a copy the read is followed by requests that
  are, each of them, the write at \<open>dst\<close> of all the bytes the read returned.
\<close>

theorem retry_resumes_in_fill_restarts_in_put_and_copy:
  assumes "virtual_active b s"
  shows "(\<forall>addr n val rest s' ok.
            CmdFill s (addr # n # val # rest) = Some (Inr (s', ok)) \<longrightarrow>
            (\<exists>new. accesses s' = accesses s @ new \<and>
                   resumes (ucast val) addr (virtual_requests new))) \<and>
         (\<forall>addr bytes s' ok.
            CmdPut s (addr # bytes) = Inr (s', ok) \<longrightarrow>
            (\<exists>new. accesses s' = accesses s @ new \<and>
                   restarts addr (map ucast bytes) (virtual_requests new))) \<and>
         (\<forall>dst src n rest s' ok.
            CmdCopy s (dst # src # n # rest) = Inr (s', ok) \<longrightarrow>
            (\<exists>new buf r.
               fst (snd (get_bytes s src (unat n))) = buf \<and>
               accesses s' = accesses s @ Access True READ_OP src (unat n) buf r # new \<and>
               restarts dst buf (virtual_requests new)))"
proof (intro conjI allI impI)
  from assms have vm: "vm_enable (vmem_pmcb s)" "vm_enable (mmu_pmcb s)"
    by (simp_all add: virtual_active_def mmu_virtual_def vmem_virtual_def)
  {
    fix addr n val rest s' ok
    assume "CmdFill s (addr # n # val # rest) = Some (Inr (s', ok))"
    then have "fill_loop s addr 0 addr n (ucast val) = Some (Inr (s', ok))"
      by (simp add: CmdFill_def)
    from fill_loop_log [OF this vm(1)]
    show "\<exists>new. accesses s' = accesses s @ new \<and>
                resumes (ucast val) addr (virtual_requests new)" .
  }
  {
    fix addr bytes s' ok
    assume "CmdPut s (addr # bytes) = Inr (s', ok)"
    then have "write_loop s addr (length bytes) (map ucast bytes) = Inr (s', ok)"
      by (simp add: CmdPut_def)
    from write_loop_log [OF this vm(1)]
    show "\<exists>new. accesses s' = accesses s @ new \<and>
                   restarts addr (map ucast bytes) (virtual_requests new)" by simp
  }
  {
    fix dst src n rest s' ok
    assume run: "CmdCopy s (dst # src # n # rest) = Inr (s', ok)"
    obtain s1 buf r where g: "get_bytes s src (unat n) = (s1, buf, r)"
      by (cases "get_bytes s src (unat n)")
    define s2 where "s2 = (case r of None \<Rightarrow> s1
                          | Some _ \<Rightarrow> PrintAndClearException s1 ''PageFaultException on read'')"
    define s3 where "s3 = get_PMCB_vmem s2"
    define k where "k = unat (next_vaddress (vmem_pmcb s3) - src)"
    from run g have w: "write_loop s3 dst k buf = Inr (s', ok)"
      by (auto simp: CmdCopy_def Let_def s2_def s3_def k_def split: option.splits fault.splits)
    have a3: "accesses s3 = accesses s @ [Access True READ_OP src (unat n) buf r]"
      using get_bytes_log [OF g] vm(2)
      by (simp add: s3_def s2_def get_PMCB_vmem_def PrintAndClearException_def Let_def
            set_PMCB_def split: option.splits)
    have "unat n < 2 ^ 32" using unsigned_less [of n, where 'a = nat] by simp
    from get_bytes_marker [OF g vm(2) this]
    have "k = length buf"
      by (simp add: k_def s3_def s2_def get_PMCB_vmem_def PrintAndClearException_def Let_def
            set_PMCB_def split: option.splits)
    then have tk: "take k buf = buf" by simp
    have "vm_enable (mmu_pmcb s1)" using get_bytes_frame [OF g] vm(2) by simp
    then have v3: "vm_enable (vmem_pmcb s3)"
      by (simp add: s3_def s2_def get_PMCB_vmem_def PrintAndClearException_def Let_def
            set_PMCB_def split: option.splits)
    from write_loop_log [OF w v3] a3 g tk
    show "\<exists>new buf r.
               fst (snd (get_bytes s src (unat n))) = buf \<and>
               accesses s' = accesses s @ Access True READ_OP src (unat n) buf r # new \<and>
               restarts dst buf (virtual_requests new)" by auto
  }
qed

lemma map_sum_apfst_InrD:
  "map_sum id (apfst f) x = Inr (v, b) \<Longrightarrow> \<exists>s'. x = Inr (s', b) \<and> f s' = v"
  by (cases x) auto

lemma map_option_map_sum_apfst_InrD:
  "map_option (map_sum id (apfst f)) y = Some (Inr (v, b)) \<Longrightarrow>
     \<exists>s'. y = Some (Inr (s', b)) \<and> f s' = v"
  by (cases y) (auto dest: map_sum_apfst_InrD)

definition requests_and_marker :: "state \<Rightarrow> access list \<times> Addr" where
  "requests_and_marker s = (virtual_requests (accesses s), next_vaddress (vmem_pmcb s))"

lemma put_fresh5_requests:
  "map_sum id (apfst requests_and_marker) (CmdPut (fresh\<lparr>QUOTA := 5\<rparr>) [0xFFF, 1, 2]) =
     Inr (([Access True WRITE_OP 0xFFF 2 [1, 2] (Some PageFaultException),
            Access True WRITE_OP 0xFFF 2 [1, 2] (Some PageFaultException),
            Access True WRITE_OP 0xFFF 2 [1, 2] None], 0x1000), True)"
  apply (simp add: CmdPut_def fresh_def)
  apply (subst write_loop.simps, simp add: cmd_eval)
  apply (subst write_loop.simps, simp add: cmd_eval)
  apply (subst write_loop.simps, simp add: cmd_eval requests_and_marker_def)
  done

text \<open>
  Claim C1 as stated fails for put: a put of the two bytes 1, 2 at \<open>0xFFF\<close> into an empty
  address space faults twice. The second fault leaves the progress marker at \<open>0x1000\<close>,
  the first unwritten byte, and the request that follows is again the write of both
  bytes at \<open>0xFFF\<close>.
\<close>

theorem put_retry_restarts_at_original_address:
  "map_sum id (apfst requests_and_marker) (CmdPut (fresh\<lparr>QUOTA := 5\<rparr>) [0xFFF, 1, 2]) =
     Inr (([Access True WRITE_OP 0xFFF 2 [1, 2] (Some PageFaultException),
            Access True WRITE_OP 0xFFF 2 [1, 2] (Some PageFaultException),
            Access True WRITE_OP 0xFFF 2 [1, 2] None], 0x1000), True)"
  by (rule put_fresh5_requests)

lemma fill_fresh5:
  "map_option (map_sum id (apfst requests_and_marker))
     (CmdFill (fresh\<lparr>QUOTA := 5\<rparr>) [0xFFF, 2, 7]) =
     Some (Inr (([Access True WRITE_OP 0xFFF 1 [7] (Some PageFaultException),
            Access True WRITE_OP 0xFFF 1 [7] None,
            Access True WRITE_OP 0x1000 1 [7] (Some PageFaultException),
            Access True WRITE_OP 0x1000 1 [7] None], 0x1000), True))"
  apply (simp add: CmdFill_def fresh_def)
  apply (subst fill_loop.simps, simp add: cmd_eval fill_for.simps)
  apply (subst fill_loop.simps, simp add: cmd_eval fill_for.simps)
  apply (subst fill_loop.simps, simp add: cmd_eval fill_for.simps requests_and_marker_def)
  done

text \<open>A process whose page 0 is mapped read-only and holds the byte 9 at its last
  address, with room for five pages.\<close>
definition copy_source :: state where
  "copy_source = read_only\<lparr>phys := (phys read_only)(0x3FFF := 9), QUOTA := 5\<rparr>"

lemma copy_source_virtual_active: "virtual_active 0x1000 copy_source"
  by (simp add: copy_source_def read_only_def fresh_def virtual_active_def mmu_virtual_def
        vmem_virtual_def mk_PMCB_def)

lemma copy_source_run:
  "map_sum id (apfst requests_and_marker) (CmdCopy copy_source [0x1000, 0xFFF, 2]) =
     Inr (([Access True READ_OP 0xFFF 2 [9] (Some PageFaultException),
            Access True WRITE_OP 0x1000 1 [9] (Some PageFaultException),
            Access True WRITE_OP 0x1000 1 [9] None], 0x1000), True)"
  apply (simp add: CmdCopy_def copy_source_def read_only_def fresh_def zero_memory_def
           cmd_eval nat_numeral_eval)
  apply (subst write_loop.simps, simp add: cmd_eval)
  apply (subst write_loop.simps, simp add: cmd_eval requests_and_marker_def)
  done

text \<open>Claim C1, witness: a fill and a put of two bytes across the boundary of two
  unmapped pages, and a copy of the one readable byte to an unmapped page.\<close>

theorem retry_resumes_in_fill_restarts_in_put_and_copy_witness:
  "virtual_active 0x1000 (fresh\<lparr>QUOTA := 5\<rparr>) \<and>
   (\<exists>s' new. CmdFill (fresh\<lparr>QUOTA := 5\<rparr>) [0xFFF, 2, 7] = Some (Inr (s', True)) \<and>
      accesses s' = accesses (fresh\<lparr>QUOTA := 5\<rparr>) @ new \<and>
      resumes 7 0xFFF (virtual_requests new) \<and>
      virtual_requests new =
        [Access True WRITE_OP 0xFFF 1 [7] (Some PageFaultException),
         Access True WRITE_OP 0xFFF 1 [7] None,
         Access True WRITE_OP 0x1000 1 [7] (Some PageFaultException),
         Access True WRITE_OP 0x1000 1 [7] None]) \<and>
   (\<exists>s' new. CmdPut (fresh\<lparr>QUOTA := 5\<rparr>) [0xFFF, 1, 2] = Inr (s', True) \<and>
      accesses s' = accesses (fresh\<lparr>QUOTA := 5\<rparr>) @ new \<and>
      restarts 0xFFF [1, 2] (virtual_requests new) \<and> length (virtual_requests new) = 3) \<and>
   virtual_active 0x1000 copy_source \<and>
   (\<exists>s' new. CmdCopy copy_source [0x1000, 0xFFF, 2] = Inr (s', True) \<and>
      accesses s' = accesses copy_source @
        Access True READ_OP 0xFFF 2 [9] (Some PageFaultException) # new \<and>
      restarts 0x1000 [9] (virtual_requests new) \<and> length (virtual_requests new) = 2)"
proof -
  let ?s = "fresh\<lparr>QUOTA := 5\<rparr>"
  have va: "virtual_active 0x1000 ?s"
    using fresh_virtual_active
    by (simp add: virtual_active_def mmu_virtual_def vmem_virtual_def)
  have e: "accesses ?s = []" "accesses copy_source = []"
    by (simp_all add: fresh_def copy_source_def read_only_def)
  from map_option_map_sum_apfst_InrD [OF fill_fresh5] obtain s1 where
    r1: "CmdFill ?s [0xFFF, 2, 7] = Some (Inr (s1, True))"
    and q1: "virtual_requests (accesses s1) =
        [Access True WRITE_OP 0xFFF 1 [7] (Some PageFaultException),
         Access True WRITE_OP 0xFFF 1 [7] None,
         Access True WRITE_OP 0x1000 1 [7] (Some PageFaultException),
         Access True WRITE_OP 0x1000 1 [7] None]"
    by (auto simp: requests_and_marker_def)
  from retry_resumes_in_fill_restarts_in_put_and_copy [OF va] r1 obtain new1 where
    n1: "accesses s1 = accesses ?s @ new1" "resumes (ucast (7 :: 32 word)) 0xFFF (virtual_requests new1)"
    by blast
  from n1 q1 e have 1: "\<exists>s' new. CmdFill ?s [0xFFF, 2, 7] = Some (Inr (s', True)) \<and>
      accesses s' = accesses ?s @ new \<and>
      resumes 7 0xFFF (virtual_requests new) \<and>
      virtual_requests new =
        [Access True WRITE_OP 0xFFF 1 [7] (Some PageFaultException),
         Access True WRITE_OP 0xFFF 1 [7] None,
         Access True WRITE_OP 0x1000 1 [7] (Some PageFaultException),
         Access True WRITE_OP 0x1000 1 [7] None]"
    using r1 by (intro exI [of _ s1] exI [of _ new1]) simp
  from map_sum_apfst_InrD [OF put_fresh5_requests] obtain s2 where
    r2: "CmdPut ?s [0xFFF, 1, 2] = Inr (s2, True)"
    and q2: "length (virtual_requests (accesses s2)) = 3"
    by (auto simp: requests_and_marker_def)
  from retry_resumes_in_fill_restarts_in_put_and_copy [OF va] r2 obtain new2 where
    n2: "accesses s2 = accesses ?s @ new2"
        "restarts 0xFFF (map ucast [1, 2 :: 32 word]) (virtual_requests new2)"
    by blast
  from n2 q2 e have 2: "\<exists>s' new. CmdPut ?s [0xFFF, 1, 2] = Inr (s', True) \<and>
      accesses s' = accesses ?s @ new \<and>
      restarts 0xFFF [1, 2] (virtual_requests new) \<and> length (virtual_requests new) = 3"
    using r2 by (intro exI [of _ s2] exI [of _ new2]) simp
  from map_sum_apfst_InrD [OF copy_source_run] obtain s3 where
    r3: "CmdCopy copy_source [0x1000, 0xFFF, 2] = Inr (s3, True)"
    and q3: "virtual_requests (accesses s3) =
           [Access True READ_OP 0xFFF 2 [9] (Some PageFaultException),
            Access True WRITE_OP 0x1000 1 [9] (Some PageFaultException),
            Access True WRITE_OP 0x1000 1 [9] None]"
    by (auto simp: requests_and_marker_def)
  from retry_resumes_in_fill_restarts_in_put_and_copy [OF copy_source_virtual_active] r3
  obtain new3 buf r where
    n3: "accesses s3 = accesses copy_source @ Access True READ_OP 0xFFF (unat (2 :: 32 word)) buf r # new3"
        "restarts 0x1000 buf (virtual_requests new3)"
    by blast
  from n3 q3 e have 3: "\<exists>s' new. CmdCopy copy_source [0x1000, 0xFFF, 2] = Inr (s', True) \<and>
      accesses s' = accesses copy_source @
        Access True READ_OP 0xFFF 2 [9] (Some PageFaultException) # new \<and>
      restarts 0x1000 [9] (virtual_requests new) \<and> length (virtual_requests new) = 2"
    using r3 by (intro exI [of _ s3] exI [of _ new3]) auto
  from va 1 2 copy_source_virtual_active 3 show ?thesis by blast
qed

subsection \<open>How the requests of a command end\<close>

fun result :: "access \<Rightarrow> fault option" where
  "result (Access v k a n d r) = r"

text \<open>The line \<^verbatim>\<open>PrintAndClearException\<close> prints for a write-permission fault.\<close>
definition wpf_at :: "state \<Rightarrow> Addr \<Rightarrow> event" where
  "wpf_at s a = ExceptionReport ''WritePermissionFaultException'' (line_number s) a"



text \<open>\<open>quiet s s'\<close>: from \<open>s\<close> to \<open>s'\<close> no request ended in a write-permission fault and
  nothing was printed.\<close>
definition quiet :: "state \<Rightarrow> state \<Rightarrow> bool" where
  "quiet s s' \<longleftrightarrow>
     (\<exists>new. accesses s' = accesses s @ new \<and>
            (\<forall>x \<in> set new. result x \<noteq> Some WritePermissionFaultException)) \<and>
     out s' = out s \<and> line_number s' = line_number s"

text \<open>\<open>faulted s s'\<close>: the last virtual request between \<open>s\<close> and \<open>s'\<close> ended in a
  write-permission fault, which was reported, with the address the MMU stopped at.\<close>
definition faulted :: "state \<Rightarrow> state \<Rightarrow> bool" where
  "faulted s s' \<longleftrightarrow>
     (\<exists>new. accesses s' = accesses s @ new) \<and>
     (\<exists>a. out s' = out s @ [wpf_at s a]) \<and> line_number s' = line_number s"

lemma quiet_refl [simp]: "quiet s s"
  by (simp add: quiet_def)



lemma quiet_set_PMCB [simp]: "quiet s (set_PMCB s' p) = quiet s s'"
  by (simp add: quiet_def set_PMCB_def)

lemma faulted_set_PMCB [simp]: "faulted s (set_PMCB s' p) = faulted s s'"
  by (simp add: faulted_def set_PMCB_def)

lemma quiet_clear_and_activate [simp]: "quiet (clear_and_activate s) s' = quiet s s'"
  by (simp add: quiet_def clear_and_activate_def Let_def set_PMCB_def)

lemma faulted_clear_and_activate [simp]: "faulted (clear_and_activate s) s' = faulted s s'"
  by (simp add: faulted_def wpf_at_def clear_and_activate_def Let_def set_PMCB_def)














subsection \<open>A write whose first byte faults\<close>













subsection \<open>One line of the trace per pass of the command loop\<close>



text \<open>The lines of the trace still to be read, and the number of those read.\<close>
definition same_lines :: "state \<Rightarrow> state \<Rightarrow> bool" where
  "same_lines s s' \<longleftrightarrow> trace s' = trace s \<and> line_number s' = line_number s"


lemma same_input_lines: "same_input s s' \<Longrightarrow> same_lines s s'"
  by (simp add: same_input_def same_lines_def)


















end
